theory Spec2Isabelle
  imports Main
begin

section \<open>Proyecto1.cpp: a bounded buffer shared by producer and consumer threads\<close>

text \<open>
  The program is multi-threaded. It is modelled as an interleaving of atomic steps: every
  thread has a program counter that names the next statement of the source it executes, and
  a schedule (a list of events) says which thread moves next. The model has no clock: a
  timed wait on a semaphore (\<^verbatim>\<open>try_acquire_for\<close>) either succeeds, which needs a
  positive count, or reports a timeout, which the schedule may choose in any state.
  Blocking statements (\<^verbatim>\<open>acquire\<close>, \<^verbatim>\<open>join\<close>) are disabled until they can proceed.
  \<^verbatim>\<open>printMessage\<close> and the two notifier methods hold \<^verbatim>\<open>print_mutex\<close> for their
  whole body, so a message is written in one step.
\<close>

subsection \<open>Constants and machine integers\<close>

definition MAX_WAIT_TIME_MS :: nat where
  "MAX_WAIT_TIME_MS = 5000"

definition PRODUCER_RETRY_DELAY_MS :: nat where
  "PRODUCER_RETRY_DELAY_MS = 500"

text \<open>
  A C++ \<^verbatim>\<open>int\<close> is 32 bits wide. \<open>wrap32\<close> is the two's complement wrap-around of a
  mathematical integer into that range; \<open>item_of\<close> is the expression
  \<^verbatim>\<open>id * 100 + i\<close> of \<^verbatim>\<open>Producer::operator()\<close> with each operation wrapped.
\<close>

definition wrap32 :: "int \<Rightarrow> int" where
  "wrap32 x = (x + 2147483648) mod 4294967296 - 2147483648"

definition item_of :: "int \<Rightarrow> nat \<Rightarrow> int" where
  "item_of pid i = wrap32 (wrap32 (pid * 100) + int i)"

subsection \<open>Messages and operations\<close>

text \<open>
  The texts written to the console and to the log file, by the statement that writes them:
  \<open>Usage\<close> and \<open>ParamError\<close> in \<^verbatim>\<open>main\<close>; \<open>ProducerCreated\<close>, \<open>ProducerDone\<close>,
  \<open>ConsumerCreated\<close>, \<open>ConsumerDone\<close> in the two \<^verbatim>\<open>operator()\<close>;
  \<open>ProducerWaiting\<close> in \<^verbatim>\<open>notifyProducerWait\<close>; \<open>ConsumerTimeout\<close> in
  \<^verbatim>\<open>handleConsumerTimeout\<close>; \<open>InsertOk\<close> in \<^verbatim>\<open>produce\<close>; \<open>Consumed\<close> in
  \<^verbatim>\<open>consume\<close>; \<open>RemainingEmpty\<close> and \<open>Remaining\<close> in \<^verbatim>\<open>showRemainingItems\<close>.
\<close>

datatype msg =
    Usage
  | ParamError
  | ProducerCreated int
  | ProducerWaiting int int
  | InsertOk int int
  | ProducerDone int
  | ConsumerCreated int
  | ConsumerTimeout int
  | Consumed int int
  | ConsumerDone int
  | RemainingEmpty
  | Remaining "int list"

datatype sem = Spaces | Items

text \<open>The operation a step performs; a run records them in order, with the thread.\<close>

datatype op =
    TryAcquireFor sem nat bool
  | Release sem
  | Lock
  | Unlock
  | Push int
  | Front int
  | Pop
  | Print msg
  | CallProduce int int
  | CallConsume int
  | Sleep nat
  | Spawn
  | Join
  | CloseLog
  | Skip

subsection \<open>The shared objects\<close>

text \<open>
  The fields of \<^verbatim>\<open>class Buffer\<close> (the queue, the binary semaphore that guards it and
  the two counting semaphores), and \<open>out\<close>, the sequence of messages written so far.
\<close>

record shared =
  buffer :: "int list"
  buffer_mutex :: nat
  spaces :: nat
  items :: nat
  out :: "msg list"

definition printMessage :: "msg \<Rightarrow> shared \<Rightarrow> shared" where
  "printMessage m w = w\<lparr>out := out w @ [m]\<rparr>"

text \<open>
  The result of one step: the statement cannot proceed now (\<open>Disabled\<close>), it has undefined
  behaviour in C++ (\<open>Undefined\<close>: \<^verbatim>\<open>front\<close> or \<^verbatim>\<open>pop\<close> on an empty queue,
  \<^verbatim>\<open>release\<close> of the binary semaphore beyond its maximum 1), or it performs an operation
  and yields the next state.
\<close>

datatype 'a result = Disabled | Undefined | Next op 'a

subsection \<open>Producer threads\<close>

text \<open>
  Program counters of a producer thread. \<open>PCreated\<close>, \<open>PFor\<close>, \<open>PSleep\<close> and
  \<open>PFinish\<close> are in \<^verbatim>\<open>Producer::operator()\<close>; the others are inside
  \<^verbatim>\<open>Buffer::produce\<close> and carry the loop index and the item of the call.
\<close>

datatype ppc =
    PCreated
  | PFor nat
  | PTry nat int
  | PNotify nat int
  | PLock nat int
  | PPush nat int
  | PPrint nat int
  | PUnlock nat int
  | PSignal nat int
  | PSleep nat
  | PFinish
  | PDone

fun pstep :: "nat \<Rightarrow> int \<Rightarrow> bool \<Rightarrow> ppc \<Rightarrow> shared \<Rightarrow> (ppc \<times> shared) result" where
  "pstep N pid ok PCreated w =
     Next (Print (ProducerCreated pid)) (PFor 0, printMessage (ProducerCreated pid) w)"
| "pstep N pid ok (PFor i) w =
     (if i < N then Next (CallProduce pid (item_of pid i)) (PTry i (item_of pid i), w)
      else Next Skip (PFinish, w))"
| "pstep N pid ok (PTry i item) w =
     (if ok then
        (if 0 < spaces w
         then Next (TryAcquireFor Spaces PRODUCER_RETRY_DELAY_MS True)
                (PLock i item, w\<lparr>spaces := spaces w - 1\<rparr>)
         else Disabled)
      else Next (TryAcquireFor Spaces PRODUCER_RETRY_DELAY_MS False) (PNotify i item, w))"
| "pstep N pid ok (PNotify i item) w =
     Next (Print (ProducerWaiting pid item))
       (PTry i item, printMessage (ProducerWaiting pid item) w)"
| "pstep N pid ok (PLock i item) w =
     (if 0 < buffer_mutex w
      then Next Lock (PPush i item, w\<lparr>buffer_mutex := buffer_mutex w - 1\<rparr>)
      else Disabled)"
| "pstep N pid ok (PPush i item) w =
     Next (Push item) (PPrint i item, w\<lparr>buffer := buffer w @ [item]\<rparr>)"
| "pstep N pid ok (PPrint i item) w =
     Next (Print (InsertOk pid item)) (PUnlock i item, printMessage (InsertOk pid item) w)"
| "pstep N pid ok (PUnlock i item) w =
     (if 1 \<le> buffer_mutex w then Undefined
      else Next Unlock (PSignal i item, w\<lparr>buffer_mutex := buffer_mutex w + 1\<rparr>))"
| "pstep N pid ok (PSignal i item) w =
     Next (Release Items) (PSleep i, w\<lparr>items := items w + 1\<rparr>)"
| "pstep N pid ok (PSleep i) w = Next (Sleep 2000) (PFor (Suc i), w)"
| "pstep N pid ok PFinish w =
     Next (Print (ProducerDone pid)) (PDone, printMessage (ProducerDone pid) w)"
| "pstep N pid ok PDone w = Disabled"

subsection \<open>Consumer threads\<close>

text \<open>
  Program counters of a consumer thread. \<open>CCreated\<close>, \<open>CFor\<close>, \<open>CRet\<close> and
  \<open>CFinish\<close> are in \<^verbatim>\<open>Consumer::operator()\<close>; the others are inside
  \<^verbatim>\<open>Buffer::consume\<close>. \<open>CRet i v\<close> is the point where \<^verbatim>\<open>consume\<close> has returned
  \<open>v\<close> to the loop.
\<close>

datatype cpc =
    CCreated
  | CFor nat
  | CTry nat
  | CTimeout nat
  | CLock nat
  | CFront nat
  | CPop nat int
  | CPrint nat int
  | CUnlock nat int
  | CSignal nat int
  | CRet nat int
  | CFinish
  | CDone

fun cstep :: "nat \<Rightarrow> int \<Rightarrow> bool \<Rightarrow> cpc \<Rightarrow> shared \<Rightarrow> (cpc \<times> shared) result" where
  "cstep N cid ok CCreated w =
     Next (Print (ConsumerCreated cid)) (CFor 0, printMessage (ConsumerCreated cid) w)"
| "cstep N cid ok (CFor i) w =
     (if i < N then Next (CallConsume cid) (CTry i, w) else Next Skip (CFinish, w))"
| "cstep N cid ok (CTry i) w =
     (if ok then
        (if 0 < items w
         then Next (TryAcquireFor Items MAX_WAIT_TIME_MS True) (CLock i, w\<lparr>items := items w - 1\<rparr>)
         else Disabled)
      else Next (TryAcquireFor Items MAX_WAIT_TIME_MS False) (CTimeout i, w))"
| "cstep N cid ok (CTimeout i) w =
     Next (Print (ConsumerTimeout cid)) (CRet i (- 1), printMessage (ConsumerTimeout cid) w)"
| "cstep N cid ok (CLock i) w =
     (if 0 < buffer_mutex w
      then Next Lock (CFront i, w\<lparr>buffer_mutex := buffer_mutex w - 1\<rparr>)
      else Disabled)"
| "cstep N cid ok (CFront i) w =
     (case buffer w of [] \<Rightarrow> Undefined | x # xs \<Rightarrow> Next (Front x) (CPop i x, w))"
| "cstep N cid ok (CPop i item) w =
     (case buffer w of [] \<Rightarrow> Undefined
      | x # xs \<Rightarrow> Next Pop (CPrint i item, w\<lparr>buffer := xs\<rparr>))"
| "cstep N cid ok (CPrint i item) w =
     Next (Print (Consumed cid item)) (CUnlock i item, printMessage (Consumed cid item) w)"
| "cstep N cid ok (CUnlock i item) w =
     (if 1 \<le> buffer_mutex w then Undefined
      else Next Unlock (CSignal i item, w\<lparr>buffer_mutex := buffer_mutex w + 1\<rparr>))"
| "cstep N cid ok (CSignal i item) w =
     Next (Release Spaces) (CRet i item, w\<lparr>spaces := spaces w + 1\<rparr>)"
| "cstep N cid ok (CRet i item) w =
     (if item \<noteq> - 1 then Next (Sleep 1500) (CFor (Suc i), w) else Next Skip (CFor (Suc i), w))"
| "cstep N cid ok CFinish w =
     Next (Print (ConsumerDone cid)) (CDone, printMessage (ConsumerDone cid) w)"
| "cstep N cid ok CDone w = Disabled"

subsection \<open>The coordinator and the whole system\<close>

text \<open>
  The globals \<^verbatim>\<open>N\<close>, \<^verbatim>\<open>NP\<close>, \<^verbatim>\<open>NC\<close>, which \<^verbatim>\<open>main\<close> sets once before any
  thread exists.
\<close>

record config =
  cN :: nat
  cNP :: nat
  cNC :: nat

text \<open>
  Program counters of the main thread, from \<^verbatim>\<open>Principal::run\<close> (two spawning loops,
  two joining loops, \<^verbatim>\<open>showRemainingItems\<close>) to the end of \<^verbatim>\<open>main\<close>.
\<close>

datatype mpc =
    MSpawnP nat
  | MSpawnC nat
  | MJoinP nat
  | MJoinC nat
  | MShowLock
  | MShowPrint
  | MShowUnlock
  | MClose
  | MExit

text \<open>
  The two vectors of threads grow by \<^verbatim>\<open>emplace_back\<close>; the thread at index \<open>k\<close> was
  constructed with identifier \<open>k + 1\<close>.
\<close>

record system =
  sh :: shared
  producers :: "ppc list"
  consumers :: "cpc list"
  coord :: mpc

text \<open>The loop of \<^verbatim>\<open>showRemainingItems\<close> over a copy of the queue.\<close>

fun drain :: "int list \<Rightarrow> int list" where
  "drain [] = []"
| "drain (x # temp) = x # drain temp"

definition remaining_msg :: "int list \<Rightarrow> msg" where
  "remaining_msg q = (if q = [] then RemainingEmpty else Remaining (drain q))"

fun mstep :: "config \<Rightarrow> system \<Rightarrow> system result" where
  "mstep cfg s =
     (case coord s of
        MSpawnP i \<Rightarrow>
          (if i < cNP cfg
           then Next Spawn (s\<lparr>producers := producers s @ [PCreated], coord := MSpawnP (Suc i)\<rparr>)
           else Next Skip (s\<lparr>coord := MSpawnC 0\<rparr>))
      | MSpawnC i \<Rightarrow>
          (if i < cNC cfg
           then Next Spawn (s\<lparr>consumers := consumers s @ [CCreated], coord := MSpawnC (Suc i)\<rparr>)
           else Next Skip (s\<lparr>coord := MJoinP 0\<rparr>))
      | MJoinP i \<Rightarrow>
          (if i < length (producers s)
           then (if producers s ! i = PDone then Next Join (s\<lparr>coord := MJoinP (Suc i)\<rparr>)
                 else Disabled)
           else Next Skip (s\<lparr>coord := MJoinC 0\<rparr>))
      | MJoinC i \<Rightarrow>
          (if i < length (consumers s)
           then (if consumers s ! i = CDone then Next Join (s\<lparr>coord := MJoinC (Suc i)\<rparr>)
                 else Disabled)
           else Next Skip (s\<lparr>coord := MShowLock\<rparr>))
      | MShowLock \<Rightarrow>
          (if 0 < buffer_mutex (sh s)
           then Next Lock (s\<lparr>sh := (sh s)\<lparr>buffer_mutex := buffer_mutex (sh s) - 1\<rparr>,
                               coord := MShowPrint\<rparr>)
           else Disabled)
      | MShowPrint \<Rightarrow>
          Next (Print (remaining_msg (buffer (sh s))))
            (s\<lparr>sh := printMessage (remaining_msg (buffer (sh s))) (sh s), coord := MShowUnlock\<rparr>)
      | MShowUnlock \<Rightarrow>
          (if 1 \<le> buffer_mutex (sh s) then Undefined
           else Next Unlock (s\<lparr>sh := (sh s)\<lparr>buffer_mutex := buffer_mutex (sh s) + 1\<rparr>,
                                 coord := MClose\<rparr>))
      | MClose \<Rightarrow> Next CloseLog (s\<lparr>coord := MExit\<rparr>)
      | MExit \<Rightarrow> Disabled)"

datatype actor = Prod nat | Cons nat | Coord

text \<open>
  An event names the thread that moves and, for a timed wait, whether the semaphore was
  acquired before the timeout (the flag is ignored by every other statement).
\<close>

type_synonym event = "actor \<times> bool"

fun step :: "config \<Rightarrow> event \<Rightarrow> system \<Rightarrow> system result" where
  "step cfg (Prod k, ok) s =
     (if k < length (producers s) then
        (case pstep (cN cfg) (int k + 1) ok (producers s ! k) (sh s) of
           Disabled \<Rightarrow> Disabled
         | Undefined \<Rightarrow> Undefined
         | Next l (pc, w) \<Rightarrow> Next l (s\<lparr>sh := w, producers := (producers s)[k := pc]\<rparr>))
      else Disabled)"
| "step cfg (Cons k, ok) s =
     (if k < length (consumers s) then
        (case cstep (cN cfg) (int k + 1) ok (consumers s ! k) (sh s) of
           Disabled \<Rightarrow> Disabled
         | Undefined \<Rightarrow> Undefined
         | Next l (pc, w) \<Rightarrow> Next l (s\<lparr>sh := w, consumers := (consumers s)[k := pc]\<rparr>))
      else Disabled)"
| "step cfg (Coord, ok) s = mstep cfg s"

text \<open>
  A run executes a schedule from a state and yields the trace of operations and the final
  state; it is \<open>None\<close> when an event of the schedule is disabled or undefined.
\<close>

type_synonym trace = "(actor \<times> op) list"

fun run :: "config \<Rightarrow> event list \<Rightarrow> system \<Rightarrow> (trace \<times> system) option" where
  "run cfg [] s = Some ([], s)"
| "run cfg (e # es) s =
     (case step cfg e s of
        Next l s' \<Rightarrow>
          (case run cfg es s' of
             Some (tr, s'') \<Rightarrow> Some ((fst e, l) # tr, s'')
           | None \<Rightarrow> None)
      | _ \<Rightarrow> None)"

text \<open>
  The state in which \<^verbatim>\<open>Principal::run\<close> starts: \<^verbatim>\<open>Buffer(capacity)\<close> has
  initialised \<^verbatim>\<open>spaces\<close> to the capacity, \<^verbatim>\<open>items\<close> to 0 and
  \<^verbatim>\<open>buffer_mutex\<close> to 1; no thread exists yet.
\<close>

definition init :: "nat \<Rightarrow> system" where
  "init capacity =
     \<lparr>sh = \<lparr>buffer = [], buffer_mutex = 1, spaces = capacity, items = 0, out = []\<rparr>,
      producers = [], consumers = [], coord = MSpawnP 0\<rparr>"

subsection \<open>The entry point\<close>

text \<open>
  \<^verbatim>\<open>atoi\<close> of the C library, as the GNU library on a 64-bit platform computes it: the
  value of \<^verbatim>\<open>strtol\<close> in base 10, converted to \<^verbatim>\<open>int\<close>. \<^verbatim>\<open>strtol\<close> skips white
  space, reads an optional sign and then decimal digits up to the first other character (no
  digits give 0), and saturates at the bounds of \<^verbatim>\<open>long\<close>; the conversion to
  \<^verbatim>\<open>int\<close> keeps the low 32 bits.
\<close>

definition isspace :: "char \<Rightarrow> bool" where
  "isspace c = (of_char c \<in> {32 :: nat, 9, 10, 11, 12, 13})"

definition isdigit :: "char \<Rightarrow> bool" where
  "isdigit c = (48 \<le> (of_char c :: nat) \<and> (of_char c :: nat) \<le> 57)"

fun digits :: "int \<Rightarrow> string \<Rightarrow> int" where
  "digits acc [] = acc"
| "digits acc (c # cs) =
     (if isdigit c then digits (acc * 10 + (of_char c - 48)) cs else acc)"

definition LONG_MAX :: int where
  "LONG_MAX = 9223372036854775807"

definition LONG_MIN :: int where
  "LONG_MIN = - 9223372036854775808"

definition strtol :: "string \<Rightarrow> int" where
  "strtol s =
     (let v = (case dropWhile isspace s of
                 [] \<Rightarrow> 0
               | c # cs \<Rightarrow>
                   if c = CHR ''-'' then - digits 0 cs
                   else if c = CHR ''+'' then digits 0 cs
                   else digits 0 (c # cs))
      in if LONG_MAX < v then LONG_MAX else if v < LONG_MIN then LONG_MIN else v)"

definition atoi :: "string \<Rightarrow> int" where
  "atoi s = wrap32 (strtol s)"

text \<open>
  \<^verbatim>\<open>main\<close>, given the argument vector (\<^verbatim>\<open>argc\<close> is its length) and a schedule for
  the threads. The result is the exit code, the messages written and the operations
  performed; it is \<open>None\<close> when the schedule does not take the program to its end.
\<close>

definition main :: "string list \<Rightarrow> event list \<Rightarrow> (int \<times> msg list \<times> trace) option" where
  "main argv es =
     (if length argv \<noteq> 5 then Some (1, [Usage], [])
      else
        let buffer_capacity = atoi (argv ! 1);
            N = atoi (argv ! 2);
            NP = atoi (argv ! 3);
            NC = atoi (argv ! 4)
        in
          if buffer_capacity \<le> 0 \<or> N \<le> 0 \<or> NP \<le> 0 \<or> NC \<le> 0
          then Some (1, [ParamError], [])
          else
            (case run \<lparr>cN = nat N, cNP = nat NP, cNC = nat NC\<rparr> es (init (nat buffer_capacity)) of
               Some (tr, s) \<Rightarrow> if coord s = MExit then Some (0, out (sh s), tr) else None
             | None \<Rightarrow> None))"

subsection \<open>Quantities the properties are stated with\<close>

text \<open>The number of queued items is the size of the queue.\<close>

definition queued_items :: "shared \<Rightarrow> nat" where
  "queued_items w = length (buffer w)"

text \<open>The state of the channel: queue, lock and the two counts, without the messages.\<close>

definition channel :: "shared \<Rightarrow> int list \<times> nat \<times> nat \<times> nat" where
  "channel w = (buffer w, buffer_mutex w, spaces w, items w)"

text \<open>
  Threads in the middle of a call, by program counter. A producer holds a slot between its
  acquire of \<^verbatim>\<open>spaces\<close> and its push; a consumer owes a slot between its pop and its
  release of \<^verbatim>\<open>spaces\<close>.
\<close>

fun slotP :: "ppc \<Rightarrow> nat" where
  "slotP (PLock i x) = 1"
| "slotP (PPush i x) = 1"
| "slotP _ = 0"

fun slotC :: "cpc \<Rightarrow> nat" where
  "slotC (CPrint i x) = 1"
| "slotC (CUnlock i x) = 1"
| "slotC (CSignal i x) = 1"
| "slotC _ = 0"

text \<open>
  A producer owes an item between its push and its release of \<^verbatim>\<open>items\<close>; a consumer
  holds an item between its acquire of \<^verbatim>\<open>items\<close> and its pop.
\<close>

fun itemP :: "ppc \<Rightarrow> nat" where
  "itemP (PPrint i x) = 1"
| "itemP (PUnlock i x) = 1"
| "itemP (PSignal i x) = 1"
| "itemP _ = 0"

fun itemC :: "cpc \<Rightarrow> nat" where
  "itemC (CLock i) = 1"
| "itemC (CFront i) = 1"
| "itemC (CPop i x) = 1"
| "itemC _ = 0"

text \<open>A thread holds the lock between its acquire and its release of \<^verbatim>\<open>buffer_mutex\<close>.\<close>

fun csP :: "ppc \<Rightarrow> nat" where
  "csP (PPush i x) = 1"
| "csP (PPrint i x) = 1"
| "csP (PUnlock i x) = 1"
| "csP _ = 0"

fun csC :: "cpc \<Rightarrow> nat" where
  "csC (CFront i) = 1"
| "csC (CPop i x) = 1"
| "csC (CPrint i x) = 1"
| "csC (CUnlock i x) = 1"
| "csC _ = 0"

fun csM :: "mpc \<Rightarrow> nat" where
  "csM MShowPrint = 1"
| "csM MShowUnlock = 1"
| "csM _ = 0"

definition total :: "('a \<Rightarrow> nat) \<Rightarrow> 'a list \<Rightarrow> nat" where
  "total f xs = sum_list (map f xs)"

definition slots_in_flight :: "system \<Rightarrow> nat" where
  "slots_in_flight s = total slotP (producers s) + total slotC (consumers s)"

definition items_in_flight :: "system \<Rightarrow> nat" where
  "items_in_flight s = total itemP (producers s) + total itemC (consumers s)"

definition lock_holders :: "system \<Rightarrow> nat" where
  "lock_holders s = total csP (producers s) + total csC (consumers s) + csM (coord s)"

definition slots_plus_queued :: "system \<Rightarrow> nat" where
  "slots_plus_queued s = spaces (sh s) + queued_items (sh s)"

text \<open>The operations of one thread in a trace, in order.\<close>

fun ops_of :: "actor \<Rightarrow> trace \<Rightarrow> op list" where
  "ops_of a [] = []"
| "ops_of a ((b, l) # tr) = (if b = a then l # ops_of a tr else ops_of a tr)"

text \<open>The arguments of the calls of \<^verbatim>\<open>produce\<close> among a thread's operations.\<close>

fun produce_calls :: "op list \<Rightarrow> (int \<times> int) list" where
  "produce_calls [] = []"
| "produce_calls (CallProduce pid item # ls) = (pid, item) # produce_calls ls"
| "produce_calls (l # ls) = produce_calls ls"

text \<open>The number of calls of \<^verbatim>\<open>produce\<close> a producer has made when it is at a program counter.\<close>

fun calls_made :: "nat \<Rightarrow> ppc \<Rightarrow> nat" where
  "calls_made N PCreated = 0"
| "calls_made N (PFor i) = i"
| "calls_made N (PTry i x) = Suc i"
| "calls_made N (PNotify i x) = Suc i"
| "calls_made N (PLock i x) = Suc i"
| "calls_made N (PPush i x) = Suc i"
| "calls_made N (PPrint i x) = Suc i"
| "calls_made N (PUnlock i x) = Suc i"
| "calls_made N (PSignal i x) = Suc i"
| "calls_made N (PSleep i) = Suc i"
| "calls_made N PFinish = N"
| "calls_made N PDone = N"

text \<open>
  The program counter of the producer (consumer) with index \<open>k\<close>; a thread that has not
  been spawned yet is at its first statement.
\<close>

definition ppc_at :: "system \<Rightarrow> nat \<Rightarrow> ppc" where
  "ppc_at s k = (if k < length (producers s) then producers s ! k else PCreated)"

definition cpc_at :: "system \<Rightarrow> nat \<Rightarrow> cpc" where
  "cpc_at s k = (if k < length (consumers s) then consumers s ! k else CCreated)"

subsection \<open>The synchronisation protocol of a call\<close>

text \<open>
  The order of synchronisation operations that a call of \<^verbatim>\<open>produce\<close> or \<^verbatim>\<open>consume\<close>
  has to follow, as an automaton over the operations of one thread. \<open>acq\<close> is the counting
  semaphore the call acquires and \<open>rel\<close> the complementary one it releases. Outside a call
  or while waiting, the thread may only try to acquire \<open>acq\<close>; the lock may be taken only
  right after a successful acquire; while the lock is held the thread works on the queue
  and prints, and touches no counting semaphore; the lock is released, and right after that
  \<open>rel\<close> is released. \<open>None\<close> is a violation.
\<close>

datatype phase = Outside | Acquired | Locked | Unlocked

fun protocol :: "sem \<Rightarrow> sem \<Rightarrow> phase \<Rightarrow> op \<Rightarrow> phase option" where
  "protocol acq rel Outside (TryAcquireFor sm d ok) =
     (if sm = acq then Some (if ok then Acquired else Outside) else None)"
| "protocol acq rel Outside (Print m) = Some Outside"
| "protocol acq rel Outside (CallProduce pid x) = Some Outside"
| "protocol acq rel Outside (CallConsume cid) = Some Outside"
| "protocol acq rel Outside (Sleep d) = Some Outside"
| "protocol acq rel Outside Skip = Some Outside"
| "protocol acq rel Outside _ = None"
| "protocol acq rel Acquired Lock = Some Locked"
| "protocol acq rel Acquired _ = None"
| "protocol acq rel Locked (Push x) = Some Locked"
| "protocol acq rel Locked (Front x) = Some Locked"
| "protocol acq rel Locked Pop = Some Locked"
| "protocol acq rel Locked (Print m) = Some Locked"
| "protocol acq rel Locked Unlock = Some Unlocked"
| "protocol acq rel Locked _ = None"
| "protocol acq rel Unlocked (Release sm) = (if sm = rel then Some Outside else None)"
| "protocol acq rel Unlocked _ = None"

fun follows :: "sem \<Rightarrow> sem \<Rightarrow> phase \<Rightarrow> op list \<Rightarrow> phase option" where
  "follows acq rel ph [] = Some ph"
| "follows acq rel ph (l # ls) =
     (case protocol acq rel ph l of None \<Rightarrow> None | Some ph' \<Rightarrow> follows acq rel ph' ls)"

text \<open>Where a thread is in the protocol, by program counter.\<close>

fun phaseP :: "ppc \<Rightarrow> phase" where
  "phaseP (PLock i x) = Acquired"
| "phaseP (PPush i x) = Locked"
| "phaseP (PPrint i x) = Locked"
| "phaseP (PUnlock i x) = Locked"
| "phaseP (PSignal i x) = Unlocked"
| "phaseP _ = Outside"

fun phaseC :: "cpc \<Rightarrow> phase" where
  "phaseC (CLock i) = Acquired"
| "phaseC (CFront i) = Locked"
| "phaseC (CPop i x) = Locked"
| "phaseC (CPrint i x) = Locked"
| "phaseC (CUnlock i x) = Locked"
| "phaseC (CSignal i x) = Unlocked"
| "phaseC _ = Outside"

subsection \<open>Invariants used in the proofs\<close>


text \<open>The loop index of a producer stays within the bound \<^verbatim>\<open>N\<close>.\<close>

fun index_ok :: "nat \<Rightarrow> ppc \<Rightarrow> bool" where
  "index_ok N (PFor i) = (i \<le> N)"
| "index_ok N (PTry i x) = (i < N)"
| "index_ok N (PNotify i x) = (i < N)"
| "index_ok N (PLock i x) = (i < N)"
| "index_ok N (PPush i x) = (i < N)"
| "index_ok N (PPrint i x) = (i < N)"
| "index_ok N (PUnlock i x) = (i < N)"
| "index_ok N (PSignal i x) = (i < N)"
| "index_ok N (PSleep i) = (i < N)"
| "index_ok N _ = True"

text \<open>The items a thread carries in its local variable while it is inside a call.\<close>

fun pitems :: "ppc \<Rightarrow> int list" where
  "pitems (PTry i x) = [x]"
| "pitems (PNotify i x) = [x]"
| "pitems (PLock i x) = [x]"
| "pitems (PPush i x) = [x]"
| "pitems (PPrint i x) = [x]"
| "pitems (PUnlock i x) = [x]"
| "pitems (PSignal i x) = [x]"
| "pitems _ = []"

fun citems :: "cpc \<Rightarrow> int list" where
  "citems (CPop i x) = [x]"
| "citems (CPrint i x) = [x]"
| "citems (CUnlock i x) = [x]"
| "citems (CSignal i x) = [x]"
| "citems _ = []"

text \<open>
  A configuration in which no producer overflows when it computes an item: the largest
  value, \<^verbatim>\<open>NP * 100 + N - 1\<close>, fits a 32-bit \<^verbatim>\<open>int\<close>.
\<close>

definition no_overflow :: "config \<Rightarrow> bool" where
  "no_overflow cfg = (int (cNP cfg) * 100 + int (cN cfg) \<le> 2147483648)"

text \<open>All items in the queue and in the local variables are at least 100.\<close>

definition items_real :: "system \<Rightarrow> bool" where
  "items_real s =
     (list_all (\<lambda>x. 100 \<le> x) (buffer (sh s)) \<and>
      list_all (\<lambda>pc. list_all (\<lambda>x. 100 \<le> x) (pitems pc)) (producers s) \<and>
      list_all (\<lambda>pc. list_all (\<lambda>x. 100 \<le> x) (citems pc)) (consumers s))"

text \<open>No more than \<^verbatim>\<open>NP\<close> producers are ever spawned.\<close>

definition spawned_ok :: "config \<Rightarrow> system \<Rightarrow> bool" where
  "spawned_ok cfg s =
     (length (producers s) \<le> cNP cfg \<and>
      (case coord s of MSpawnP i \<Rightarrow> length (producers s) = i | _ \<Rightarrow> True))"

text \<open>
  What the main thread knows at each of its program counters: how many threads exist, which
  of them it has joined, and, once \<^verbatim>\<open>showRemainingItems\<close> has printed, that its message
  is the last one written.
\<close>

definition all_done :: "config \<Rightarrow> system \<Rightarrow> bool" where
  "all_done cfg s =
     (length (producers s) = cNP cfg \<and> length (consumers s) = cNC cfg \<and>
      list_all (\<lambda>pc. pc = PDone) (producers s) \<and> list_all (\<lambda>pc. pc = CDone) (consumers s))"

definition joined :: "config \<Rightarrow> system \<Rightarrow> bool" where
  "joined cfg s =
     (case coord s of
        MSpawnP i \<Rightarrow> length (producers s) = i \<and> i \<le> cNP cfg \<and> consumers s = []
      | MSpawnC i \<Rightarrow>
          length (producers s) = cNP cfg \<and> length (consumers s) = i \<and> i \<le> cNC cfg
      | MJoinP i \<Rightarrow>
          length (producers s) = cNP cfg \<and> length (consumers s) = cNC cfg \<and>
          list_all (\<lambda>pc. pc = PDone) (take i (producers s))
      | MJoinC i \<Rightarrow>
          length (producers s) = cNP cfg \<and> length (consumers s) = cNC cfg \<and>
          list_all (\<lambda>pc. pc = PDone) (producers s) \<and>
          list_all (\<lambda>pc. pc = CDone) (take i (consumers s))
      | MShowLock \<Rightarrow> all_done cfg s
      | MShowPrint \<Rightarrow> all_done cfg s
      | _ \<Rightarrow>
          all_done cfg s \<and> out (sh s) \<noteq> [] \<and>
          last (out (sh s)) = remaining_msg (buffer (sh s)))"

subsection \<open>Concrete schedules and states used in examples\<close>

text \<open>
  One producer, one consumer, one item each, capacity 1. \<open>mid_produce\<close> is the state after
  the first producer has been spawned, has announced itself, has called \<^verbatim>\<open>produce\<close> and
  has acquired a slot; \<open>before_acquire\<close> is the state just before that acquire;
  \<open>after_produce\<close> is the state when that call has returned.
\<close>

definition one_each :: config where
  "one_each = \<lparr>cN = 1, cNP = 1, cNC = 1\<rparr>"


definition mid_produce :: system where
  "mid_produce =
     \<lparr>sh = \<lparr>buffer = [], buffer_mutex = 1, spaces = 0, items = 0, out = [ProducerCreated 1]\<rparr>,
      producers = [PLock 0 100], consumers = [], coord = MSpawnP 1\<rparr>"

definition after_produce :: system where
  "after_produce =
     \<lparr>sh = \<lparr>buffer = [100], buffer_mutex = 1, spaces = 0, items = 1,
            out = [ProducerCreated 1, InsertOk 1 100]\<rparr>,
      producers = [PSleep 0], consumers = [], coord = MSpawnP 1\<rparr>"

text \<open>
  The schedule \<open>to_try\<close> spawns both threads, lets the producer insert its item and takes
  the consumer to its timed wait in \<^verbatim>\<open>consume\<close> (state \<open>at_try\<close>). From there,
  \<open>at_timeout\<close> is the state after a timeout, \<open>at_front\<close> the state after the item and
  the lock have been acquired, \<open>at_pop\<close> the state after the front has been read.
\<close>

definition to_try :: "event list" where
  "to_try =
     [(Coord, True), (Coord, True), (Coord, True), (Coord, True),
      (Prod 0, True), (Prod 0, True), (Prod 0, True), (Prod 0, True),
      (Prod 0, True), (Prod 0, True), (Prod 0, True), (Prod 0, True),
      (Cons 0, True), (Cons 0, True)]"

definition trace_to_try :: trace where
  "trace_to_try =
     [(Coord, Spawn), (Coord, Skip), (Coord, Spawn), (Coord, Skip),
      (Prod 0, Print (ProducerCreated 1)), (Prod 0, CallProduce 1 100),
      (Prod 0, TryAcquireFor Spaces 500 True), (Prod 0, Lock), (Prod 0, Push 100),
      (Prod 0, Print (InsertOk 1 100)), (Prod 0, Unlock), (Prod 0, Release Items),
      (Cons 0, Print (ConsumerCreated 1)), (Cons 0, CallConsume 1)]"

definition at_try :: system where
  "at_try =
     \<lparr>sh = \<lparr>buffer = [100], buffer_mutex = 1, spaces = 0, items = 1,
            out = [ProducerCreated 1, InsertOk 1 100, ConsumerCreated 1]\<rparr>,
      producers = [PSleep 0], consumers = [CTry 0], coord = MJoinP 0\<rparr>"

definition at_timeout :: system where
  "at_timeout =
     \<lparr>sh = \<lparr>buffer = [100], buffer_mutex = 1, spaces = 0, items = 1,
            out = [ProducerCreated 1, InsertOk 1 100, ConsumerCreated 1]\<rparr>,
      producers = [PSleep 0], consumers = [CTimeout 0], coord = MJoinP 0\<rparr>"

definition after_timeout :: system where
  "after_timeout =
     \<lparr>sh = \<lparr>buffer = [100], buffer_mutex = 1, spaces = 0, items = 1,
            out = [ProducerCreated 1, InsertOk 1 100, ConsumerCreated 1, ConsumerTimeout 1]\<rparr>,
      producers = [PSleep 0], consumers = [CRet 0 (- 1)], coord = MJoinP 0\<rparr>"




text \<open>
  The schedule \<open>to_join\<close> runs the producer to its end, then the consumer to its end, and
  lets the main thread join both (state \<open>at_show\<close>, before \<^verbatim>\<open>showRemainingItems\<close>);
  \<open>to_exit\<close> continues to the end of \<^verbatim>\<open>main\<close>.
\<close>

definition to_join :: "event list" where
  "to_join =
     [(Coord, True), (Coord, True), (Coord, True), (Coord, True),
      (Prod 0, True), (Prod 0, True), (Prod 0, True), (Prod 0, True), (Prod 0, True),
      (Prod 0, True), (Prod 0, True), (Prod 0, True), (Prod 0, True), (Prod 0, True),
      (Prod 0, True),
      (Cons 0, True), (Cons 0, True), (Cons 0, True), (Cons 0, True), (Cons 0, True),
      (Cons 0, True), (Cons 0, True), (Cons 0, True), (Cons 0, True), (Cons 0, True),
      (Cons 0, True), (Cons 0, True),
      (Coord, True), (Coord, True), (Coord, True), (Coord, True)]"

definition trace_to_join :: trace where
  "trace_to_join =
     [(Coord, Spawn), (Coord, Skip), (Coord, Spawn), (Coord, Skip),
      (Prod 0, Print (ProducerCreated 1)), (Prod 0, CallProduce 1 100),
      (Prod 0, TryAcquireFor Spaces 500 True), (Prod 0, Lock), (Prod 0, Push 100),
      (Prod 0, Print (InsertOk 1 100)), (Prod 0, Unlock), (Prod 0, Release Items),
      (Prod 0, Sleep 2000), (Prod 0, Skip), (Prod 0, Print (ProducerDone 1)),
      (Cons 0, Print (ConsumerCreated 1)), (Cons 0, CallConsume 1),
      (Cons 0, TryAcquireFor Items 5000 True), (Cons 0, Lock), (Cons 0, Front 100),
      (Cons 0, Pop), (Cons 0, Print (Consumed 1 100)), (Cons 0, Unlock),
      (Cons 0, Release Spaces), (Cons 0, Sleep 1500), (Cons 0, Skip),
      (Cons 0, Print (ConsumerDone 1)),
      (Coord, Join), (Coord, Skip), (Coord, Join), (Coord, Skip)]"

definition at_show :: system where
  "at_show =
     \<lparr>sh = \<lparr>buffer = [], buffer_mutex = 1, spaces = 1, items = 0,
            out = [ProducerCreated 1, InsertOk 1 100, ProducerDone 1,
                   ConsumerCreated 1, Consumed 1 100, ConsumerDone 1]\<rparr>,
      producers = [PDone], consumers = [CDone], coord = MShowLock\<rparr>"

definition after_show :: system where
  "after_show =
     \<lparr>sh = \<lparr>buffer = [], buffer_mutex = 1, spaces = 1, items = 0,
            out = [ProducerCreated 1, InsertOk 1 100, ProducerDone 1,
                   ConsumerCreated 1, Consumed 1 100, ConsumerDone 1, RemainingEmpty]\<rparr>,
      producers = [PDone], consumers = [CDone], coord = MClose\<rparr>"

text \<open>
  \<open>after_push\<close> is the state in which the first producer has pushed its item and has not
  yet signalled it. With two producers and capacity 1, \<open>to_full\<close> lets the first producer
  insert its item and takes the second one to its timed wait (state \<open>full_buffer\<close>, no free
  slot); \<open>still_full\<close> is that state after two timeouts of the second producer.
\<close>

definition after_push :: system where
  "after_push =
     \<lparr>sh = \<lparr>buffer = [100], buffer_mutex = 0, spaces = 0, items = 0, out = [ProducerCreated 1]\<rparr>,
      producers = [PPrint 0 100], consumers = [], coord = MSpawnP 1\<rparr>"

definition two_producers :: config where
  "two_producers = \<lparr>cN = 1, cNP = 2, cNC = 1\<rparr>"

definition to_full :: "event list" where
  "to_full =
     [(Coord, True), (Coord, True),
      (Prod 0, True), (Prod 0, True), (Prod 0, True), (Prod 0, True),
      (Prod 0, True), (Prod 0, True), (Prod 0, True), (Prod 0, True),
      (Prod 1, True), (Prod 1, True)]"

definition trace_to_full :: trace where
  "trace_to_full =
     [(Coord, Spawn), (Coord, Spawn),
      (Prod 0, Print (ProducerCreated 1)), (Prod 0, CallProduce 1 100),
      (Prod 0, TryAcquireFor Spaces 500 True), (Prod 0, Lock), (Prod 0, Push 100),
      (Prod 0, Print (InsertOk 1 100)), (Prod 0, Unlock), (Prod 0, Release Items),
      (Prod 1, Print (ProducerCreated 2)), (Prod 1, CallProduce 2 200)]"

definition full_buffer :: system where
  "full_buffer =
     \<lparr>sh = \<lparr>buffer = [100], buffer_mutex = 1, spaces = 0, items = 1,
            out = [ProducerCreated 1, InsertOk 1 100, ProducerCreated 2]\<rparr>,
      producers = [PSleep 0, PTry 0 200], consumers = [], coord = MSpawnP 2\<rparr>"


text \<open>
  One producer and one consumer with three items each, capacity 1. In \<open>to_stall\<close> the
  consumer times out three times and finishes; then the producer inserts its first item and
  calls \<^verbatim>\<open>produce\<close> for the second (state \<open>stalled_state\<close>). \<open>stalled\<close> describes
  the states from there on: the buffer is full, the consumer is gone, the producer waits.
\<close>

definition stall_cfg :: config where
  "stall_cfg = \<lparr>cN = 3, cNP = 1, cNC = 1\<rparr>"

definition to_stall :: "event list" where
  "to_stall =
     [(Coord, True), (Coord, True), (Coord, True), (Coord, True),
      (Cons 0, True),
      (Cons 0, True), (Cons 0, False), (Cons 0, True), (Cons 0, True),
      (Cons 0, True), (Cons 0, False), (Cons 0, True), (Cons 0, True),
      (Cons 0, True), (Cons 0, False), (Cons 0, True), (Cons 0, True),
      (Cons 0, True), (Cons 0, True),
      (Prod 0, True), (Prod 0, True), (Prod 0, True), (Prod 0, True), (Prod 0, True),
      (Prod 0, True), (Prod 0, True), (Prod 0, True), (Prod 0, True), (Prod 0, True)]"

definition trace_to_stall :: trace where
  "trace_to_stall =
     [(Coord, Spawn), (Coord, Skip), (Coord, Spawn), (Coord, Skip),
      (Cons 0, Print (ConsumerCreated 1)),
      (Cons 0, CallConsume 1), (Cons 0, TryAcquireFor Items 5000 False),
      (Cons 0, Print (ConsumerTimeout 1)), (Cons 0, Skip),
      (Cons 0, CallConsume 1), (Cons 0, TryAcquireFor Items 5000 False),
      (Cons 0, Print (ConsumerTimeout 1)), (Cons 0, Skip),
      (Cons 0, CallConsume 1), (Cons 0, TryAcquireFor Items 5000 False),
      (Cons 0, Print (ConsumerTimeout 1)), (Cons 0, Skip),
      (Cons 0, Skip), (Cons 0, Print (ConsumerDone 1)),
      (Prod 0, Print (ProducerCreated 1)), (Prod 0, CallProduce 1 100),
      (Prod 0, TryAcquireFor Spaces 500 True), (Prod 0, Lock), (Prod 0, Push 100),
      (Prod 0, Print (InsertOk 1 100)), (Prod 0, Unlock), (Prod 0, Release Items),
      (Prod 0, Sleep 2000), (Prod 0, CallProduce 1 101)]"

definition stalled_state :: system where
  "stalled_state =
     \<lparr>sh = \<lparr>buffer = [100], buffer_mutex = 1, spaces = 0, items = 1,
            out = [ConsumerCreated 1, ConsumerTimeout 1, ConsumerTimeout 1, ConsumerTimeout 1,
                   ConsumerDone 1, ProducerCreated 1, InsertOk 1 100]\<rparr>,
      producers = [PTry 1 101], consumers = [CDone], coord = MJoinP 0\<rparr>"

definition stalled :: "system \<Rightarrow> bool" where
  "stalled s =
     (spaces (sh s) = 0 \<and> consumers s = [CDone] \<and>
      (producers s = [PTry 1 101] \<or> producers s = [PNotify 1 101]) \<and> coord s = MJoinP 0)"

text \<open>A state before \<^verbatim>\<open>showRemainingItems\<close> in which two items are left in the queue.\<close>

definition at_show_two :: system where
  "at_show_two =
     \<lparr>sh = \<lparr>buffer = [100, 200], buffer_mutex = 1, spaces = 0, items = 2,
            out = [ConsumerTimeout 1, InsertOk 1 100, InsertOk 2 200]\<rparr>,
      producers = [PDone, PDone], consumers = [CDone], coord = MShowLock\<rparr>"

definition to_exit :: "event list" where
  "to_exit = to_join @ [(Coord, True), (Coord, True), (Coord, True), (Coord, True)]"

definition trace_to_exit :: trace where
  "trace_to_exit =
     trace_to_join @
     [(Coord, Lock), (Coord, Print RemainingEmpty), (Coord, Unlock), (Coord, CloseLog)]"

section \<open>Proofs\<close>

subsection \<open>Runs\<close>

lemma run_snoc:
  "run cfg (es @ [e]) s =
     (case run cfg es s of
        None \<Rightarrow> None
      | Some (tr, s') \<Rightarrow>
          (case step cfg e s' of
             Next l s'' \<Rightarrow> Some (tr @ [(fst e, l)], s'')
           | _ \<Rightarrow> None))"
proof (induction es arbitrary: s)
  case Nil
  show ?case by (simp split: result.splits)
next
  case (Cons e' es)
  show ?case
    by (simp add: Cons.IH split: result.splits option.splits prod.splits)
qed


text \<open>Induction over the states and traces a run passes through.\<close>

lemma run_induct [consumes 1, case_names Start Step]:
  assumes "run cfg es s0 = Some (tr, s)"
    and "P [] s0"
    and "\<And>tr s e l s'. P tr s \<Longrightarrow> step cfg e s = Next l s' \<Longrightarrow> P (tr @ [(fst e, l)]) s'"
  shows "P tr s"
  using assms(1)
proof (induction es arbitrary: tr s rule: rev_induct)
  case Nil
  with assms(2) show ?case by simp
next
  case (snoc e es)
  from snoc.prems obtain tr1 s1 l where
    r: "run cfg es s0 = Some (tr1, s1)" and
    st: "step cfg e s1 = Next l s" and
    tr: "tr = tr1 @ [(fst e, l)]"
    by (auto simp: run_snoc split: option.splits result.splits)
  from assms(3) [OF snoc.IH [OF r] st] tr show ?case by simp
qed

text \<open>The three shapes of a step.\<close>

lemma step_cases [consumes 1, case_names Prod Cons Coord]:
  assumes "step cfg e s = Next l s'"
    and "\<And>k ok pc w. e = (Prod k, ok) \<Longrightarrow> k < length (producers s) \<Longrightarrow>
           pstep (cN cfg) (int k + 1) ok (producers s ! k) (sh s) = Next l (pc, w) \<Longrightarrow>
           s' = s\<lparr>sh := w, producers := (producers s)[k := pc]\<rparr> \<Longrightarrow> Q"
    and "\<And>k ok pc w. e = (Cons k, ok) \<Longrightarrow> k < length (consumers s) \<Longrightarrow>
           cstep (cN cfg) (int k + 1) ok (consumers s ! k) (sh s) = Next l (pc, w) \<Longrightarrow>
           s' = s\<lparr>sh := w, consumers := (consumers s)[k := pc]\<rparr> \<Longrightarrow> Q"
    and "\<And>ok. e = (Coord, ok) \<Longrightarrow> mstep cfg s = Next l s' \<Longrightarrow> Q"
  shows Q
proof (cases e)
  case (Pair a ok)
  show ?thesis
  proof (cases a)
    case (Prod k)
    with Pair assms(1) assms(2) [of k ok] show ?thesis
      by (auto split: if_splits result.splits)
  next
    case (Cons k)
    with Pair assms(1) assms(3) [of k ok] show ?thesis
      by (auto split: if_splits result.splits)
  next
    case Coord
    with Pair assms(1) assms(4) [of ok] show ?thesis by simp
  qed
qed

subsection \<open>Counting threads\<close>

lemma total_update:
  "k < length xs \<Longrightarrow> total f (xs[k := v]) + f (xs ! k) = total f xs + f v"
proof (induction xs arbitrary: k)
  case Nil
  then show ?case by simp
next
  case (Cons x xs)
  then show ?case by (cases k) (auto simp: total_def)
qed

lemma total_snoc: "total f (xs @ [v]) = total f xs + f v"
  by (simp add: total_def)

lemma total_nth_le: "k < length xs \<Longrightarrow> f (xs ! k) \<le> total f xs"
proof (induction xs arbitrary: k)
  case Nil
  then show ?case by simp
next
  case (Cons x xs)
  show ?case
  proof (cases k)
    case 0
    then show ?thesis by (simp add: total_def)
  next
    case (Suc j)
    with Cons.prems have "j < length xs" by simp
    from Cons.IH [OF this] Suc show ?thesis by (simp add: total_def)
  qed
qed


subsection \<open>Conservation of slots, items and the lock\<close>

lemma pstep_slots:
  "pstep N pid ok pc w = Next l (pc', w') \<Longrightarrow>
   spaces w' + length (buffer w') + slotP pc' = spaces w + length (buffer w) + slotP pc"
  by (cases pc) (auto simp: printMessage_def split: if_splits)

lemma cstep_slots:
  "cstep N cid ok pc w = Next l (pc', w') \<Longrightarrow>
   spaces w' + length (buffer w') + slotC pc' = spaces w + length (buffer w) + slotC pc"
  by (cases pc) (auto simp: printMessage_def split: if_splits list.splits)

lemma pstep_items:
  "pstep N pid ok pc w = Next l (pc', w') \<Longrightarrow>
   items w' + itemP pc' + length (buffer w) = items w + itemP pc + length (buffer w')"
  by (cases pc) (auto simp: printMessage_def split: if_splits)

lemma cstep_items:
  "cstep N cid ok pc w = Next l (pc', w') \<Longrightarrow>
   items w' + itemC pc' + length (buffer w) = items w + itemC pc + length (buffer w')"
  by (cases pc) (auto simp: printMessage_def split: if_splits list.splits)

lemma pstep_lock:
  "pstep N pid ok pc w = Next l (pc', w') \<Longrightarrow>
   buffer_mutex w' + csP pc' = buffer_mutex w + csP pc"
  by (cases pc) (auto simp: printMessage_def split: if_splits)

lemma cstep_lock:
  "cstep N cid ok pc w = Next l (pc', w') \<Longrightarrow>
   buffer_mutex w' + csC pc' = buffer_mutex w + csC pc"
  by (cases pc) (auto simp: printMessage_def split: if_splits list.splits)

lemma step_slots:
  assumes "step cfg e s = Next l s'"
  shows "spaces (sh s') + length (buffer (sh s')) + slots_in_flight s' =
         spaces (sh s) + length (buffer (sh s)) + slots_in_flight s"
  using assms
proof (cases rule: step_cases)
  case (Prod k ok pc w)
  from pstep_slots [OF Prod(3)] total_update [OF Prod(2), of slotP pc] show ?thesis
    by (simp add: Prod(4) slots_in_flight_def)
next
  case (Cons k ok pc w)
  from cstep_slots [OF Cons(3)] total_update [OF Cons(2), of slotC pc] show ?thesis
    by (simp add: Cons(4) slots_in_flight_def)
next
  case (Coord ok)
  then show ?thesis
    by (auto simp: slots_in_flight_def total_snoc printMessage_def split: mpc.splits if_splits)
qed

lemma step_items:
  assumes "step cfg e s = Next l s'"
  shows "items (sh s') + items_in_flight s' + length (buffer (sh s)) =
         items (sh s) + items_in_flight s + length (buffer (sh s'))"
  using assms
proof (cases rule: step_cases)
  case (Prod k ok pc w)
  from pstep_items [OF Prod(3)] total_update [OF Prod(2), of itemP pc] show ?thesis
    by (simp add: Prod(4) items_in_flight_def)
next
  case (Cons k ok pc w)
  from cstep_items [OF Cons(3)] total_update [OF Cons(2), of itemC pc] show ?thesis
    by (simp add: Cons(4) items_in_flight_def)
next
  case (Coord ok)
  then show ?thesis
    by (auto simp: items_in_flight_def total_snoc printMessage_def split: mpc.splits if_splits)
qed

lemma step_lock:
  assumes "step cfg e s = Next l s'"
  shows "buffer_mutex (sh s') + lock_holders s' = buffer_mutex (sh s) + lock_holders s"
  using assms
proof (cases rule: step_cases)
  case (Prod k ok pc w)
  from pstep_lock [OF Prod(3)] total_update [OF Prod(2), of csP pc] show ?thesis
    by (simp add: Prod(4) lock_holders_def)
next
  case (Cons k ok pc w)
  from cstep_lock [OF Cons(3)] total_update [OF Cons(2), of csC pc] show ?thesis
    by (simp add: Cons(4) lock_holders_def)
next
  case (Coord ok)
  then show ?thesis
    by (auto simp: lock_holders_def total_snoc printMessage_def split: mpc.splits if_splits)
qed

lemma run_slots:
  assumes "run cfg es (init capacity) = Some (tr, s)"
  shows "spaces (sh s) + length (buffer (sh s)) + slots_in_flight s = capacity"
  using assms
proof (induction rule: run_induct)
  case Start
  show ?case by (simp add: init_def slots_in_flight_def total_def)
next
  case (Step tr s e l s')
  with step_slots [OF Step(2)] show ?case by simp
qed

lemma run_items:
  assumes "run cfg es (init capacity) = Some (tr, s)"
  shows "items (sh s) + items_in_flight s = length (buffer (sh s))"
  using assms
proof (induction rule: run_induct)
  case Start
  show ?case by (simp add: init_def items_in_flight_def total_def)
next
  case (Step tr s e l s')
  with step_items [OF Step(2)] show ?case by simp
qed

lemma run_lock:
  assumes "run cfg es (init capacity) = Some (tr, s)"
  shows "buffer_mutex (sh s) + lock_holders s = 1"
  using assms
proof (induction rule: run_induct)
  case Start
  show ?case by (simp add: init_def lock_holders_def total_def)
next
  case (Step tr s e l s')
  with step_lock [OF Step(2)] show ?case by simp
qed

subsection \<open>The front of the queue is kept for the consumer that read it\<close>





lemma mstep_consumers:
  "mstep cfg s = Next l s' \<Longrightarrow> consumers s' = consumers s \<or> consumers s' = consumers s @ [CCreated]"
  by (auto split: mpc.splits if_splits)

lemma mstep_producers:
  "mstep cfg s = Next l s' \<Longrightarrow> producers s' = producers s \<or> producers s' = producers s @ [PCreated]"
  by (auto split: mpc.splits if_splits)



subsection \<open>No statement with undefined behaviour is reached\<close>

lemma pstep_undefined:
  "pstep N pid ok pc w = Undefined \<Longrightarrow> csP pc = 1 \<and> 1 \<le> buffer_mutex w"
  by (cases pc) (auto split: if_splits)

lemma cstep_undefined:
  "cstep N cid ok pc w = Undefined \<Longrightarrow>
   (csC pc = 1 \<and> 1 \<le> buffer_mutex w) \<or> (itemC pc = 1 \<and> buffer w = [])"
  by (cases pc) (auto split: if_splits list.splits)

lemma run_no_undefined:
  assumes r: "run cfg es (init capacity) = Some (tr, s)"
  shows "step cfg e s \<noteq> Undefined"
proof
  assume u: "step cfg e s = Undefined"
  note lock = run_lock [OF r] and it = run_items [OF r]
  obtain a ok where e: "e = (a, ok)" by (cases e)
  show False
  proof (cases a)
    case (Prod k)
    with u e have k: "k < length (producers s)"
      and p: "pstep (cN cfg) (int k + 1) ok (producers s ! k) (sh s) = Undefined"
      by (auto split: if_splits result.splits)
    from pstep_undefined [OF p] total_nth_le [OF k, of csP] lock show False
      by (simp add: lock_holders_def)
  next
    case (Cons k)
    with u e have k: "k < length (consumers s)"
      and p: "cstep (cN cfg) (int k + 1) ok (consumers s ! k) (sh s) = Undefined"
      by (auto split: if_splits result.splits)
    from cstep_undefined [OF p] total_nth_le [OF k, of csC] total_nth_le [OF k, of itemC] lock it
    show False
      by (auto simp: lock_holders_def items_in_flight_def)
  next
    case Coord
    with u e lock show False
      by (auto simp: lock_holders_def split: mpc.splits if_splits)
  qed
qed

subsection \<open>One call, run without interruption\<close>

lemma same_pc_p: "producers s ! k = pc \<Longrightarrow> s\<lparr>producers := (producers s)[k := pc]\<rparr> = s"
  by auto





lemma drain_id: "drain q = q"
  by (induction q) auto

subsection \<open>The operations of one thread\<close>

lemma ops_of_snoc: "ops_of a (tr @ [(b, l)]) = ops_of a tr @ (if b = a then [l] else [])"
  by (induction tr) auto

lemma produce_calls_append: "produce_calls (ls @ ms) = produce_calls ls @ produce_calls ms"
  by (induction ls rule: produce_calls.induct) auto

lemma follows_snoc:
  "follows acq rel ph (ls @ [l]) =
     (case follows acq rel ph ls of None \<Rightarrow> None | Some p \<Rightarrow> protocol acq rel p l)"
  by (induction ls arbitrary: ph) (auto split: option.splits)

lemma ppc_at_update:
  "k < length (producers s) \<Longrightarrow>
   ppc_at (s\<lparr>sh := w, producers := (producers s)[k := pc]\<rparr>) j = (if j = k then pc else ppc_at s j)"
  by (simp add: ppc_at_def)

lemma cpc_at_update:
  "k < length (consumers s) \<Longrightarrow>
   cpc_at (s\<lparr>sh := w, consumers := (consumers s)[k := pc]\<rparr>) j = (if j = k then pc else cpc_at s j)"
  by (simp add: cpc_at_def)

lemma ppc_at_other [simp]: "ppc_at (s\<lparr>sh := w, consumers := cs\<rparr>) j = ppc_at s j"
  by (simp add: ppc_at_def)

lemma cpc_at_other [simp]: "cpc_at (s\<lparr>sh := w, producers := ps\<rparr>) j = cpc_at s j"
  by (simp add: cpc_at_def)

lemma ppc_at_nth: "k < length (producers s) \<Longrightarrow> ppc_at s k = producers s ! k"
  by (simp add: ppc_at_def)

lemma cpc_at_nth: "k < length (consumers s) \<Longrightarrow> cpc_at s k = consumers s ! k"
  by (simp add: cpc_at_def)

lemma mstep_ppc_at: "mstep cfg s = Next l s' \<Longrightarrow> ppc_at s' j = ppc_at s j"
  using mstep_producers [of cfg s l s']
  by (auto simp: ppc_at_def nth_append less_Suc_eq)

lemma mstep_cpc_at: "mstep cfg s = Next l s' \<Longrightarrow> cpc_at s' j = cpc_at s j"
  using mstep_consumers [of cfg s l s']
  by (auto simp: cpc_at_def nth_append less_Suc_eq)

lemma pstep_calls:
  assumes "pstep N pid ok pc w = Next l (pc', w')" and "index_ok N pc"
  shows "index_ok N pc' \<and> calls_made N pc \<le> calls_made N pc' \<and>
         produce_calls [l] =
           map (\<lambda>i. (pid, item_of pid i)) [calls_made N pc ..< calls_made N pc']"
  using assms by (cases pc) (auto split: if_splits)

lemma calls_extend:
  assumes "cs = map f [0 ..< a]" and "ds = map f [a ..< b]" and "a \<le> b"
  shows "cs @ ds = map f [0 ..< b]"
proof -
  from assms(3) have "[0 ..< b] = [0 ..< a] @ [a ..< b]"
    by (metis le_add_diff_inverse upt_add_eq_append zero_le)
  with assms(1,2) show ?thesis by simp
qed

lemma run_calls:
  assumes "run cfg es (init capacity) = Some (tr, s)"
  shows "index_ok (cN cfg) (ppc_at s k) \<and>
         produce_calls (ops_of (Prod k) tr) =
           map (\<lambda>i. (int k + 1, item_of (int k + 1) i)) [0 ..< calls_made (cN cfg) (ppc_at s k)]"
  using assms
proof (induction arbitrary: k rule: run_induct)
  case Start
  show ?case by (simp add: init_def ppc_at_def)
next
  case (Step tr s e l s')
  note IH = Step(1) [of k]
  from Step(2) show ?case
  proof (cases rule: step_cases)
    case (Prod j ok pc w)
    show ?thesis
    proof (cases "j = k")
      case True
      from Prod(2) True have at: "producers s ! k = ppc_at s k" by (simp add: ppc_at_def)
      from pstep_calls [OF Prod(3) [unfolded True at]] IH
      have ok': "index_ok (cN cfg) pc"
        and le: "calls_made (cN cfg) (ppc_at s k) \<le> calls_made (cN cfg) pc"
        and new: "produce_calls [l] = map (\<lambda>i. (int k + 1, item_of (int k + 1) i))
                    [calls_made (cN cfg) (ppc_at s k) ..< calls_made (cN cfg) pc]"
        by simp_all
      from IH have old: "produce_calls (ops_of (Prod k) tr) =
          map (\<lambda>i. (int k + 1, item_of (int k + 1) i)) [0 ..< calls_made (cN cfg) (ppc_at s k)]"
        by simp
      from calls_extend [OF old new le] ok' Prod(2) True show ?thesis
        by (simp add: Prod(1,4) ops_of_snoc produce_calls_append ppc_at_update)
    next
      case False
      with IH Prod(2) show ?thesis
        by (simp add: Prod(1,4) ops_of_snoc ppc_at_update)
    qed
  next
    case (Cons j ok pc w)
    with IH show ?thesis by (simp add: ops_of_snoc)
  next
    case (Coord ok)
    with IH mstep_ppc_at [OF Coord(2), of k] show ?thesis by (simp add: ops_of_snoc)
  qed
qed

lemma calls_made_le: "index_ok N pc \<Longrightarrow> calls_made N pc \<le> N"
  by (cases pc) auto

lemma pstep_protocol:
  "pstep N pid ok pc w = Next l (pc', w') \<Longrightarrow>
   protocol Spaces Items (phaseP pc) l = Some (phaseP pc')"
  by (cases pc) (auto split: if_splits)

lemma cstep_protocol:
  "cstep N cid ok pc w = Next l (pc', w') \<Longrightarrow>
   protocol Items Spaces (phaseC pc) l = Some (phaseC pc')"
  by (cases pc) (auto split: if_splits list.splits)

subsection \<open>Item values\<close>

lemma wrap32_id: "- 2147483648 \<le> x \<Longrightarrow> x \<le> 2147483647 \<Longrightarrow> wrap32 x = x"
  by (simp add: wrap32_def)

lemma item_of_exact:
  assumes "1 \<le> pid" and "pid * 100 + int i \<le> 2147483647"
  shows "item_of pid i = pid * 100 + int i"
proof -
  from assms have "wrap32 (pid * 100) = pid * 100"
    by (intro wrap32_id) auto
  moreover from assms have "wrap32 (pid * 100 + int i) = pid * 100 + int i"
    by (intro wrap32_id) auto
  ultimately show ?thesis by (simp add: item_of_def)
qed

lemma pstep_items_real:
  assumes "pstep N pid ok pc w = Next l (pc', w')"
    and "1 \<le> pid" and "pid * 100 + int N \<le> 2147483648"
    and "list_all (\<lambda>x. 100 \<le> x) (pitems pc)" and "list_all (\<lambda>x. 100 \<le> x) (buffer w)"
  shows "list_all (\<lambda>x. 100 \<le> x) (pitems pc') \<and> list_all (\<lambda>x. 100 \<le> x) (buffer w')"
proof (cases pc)
  case (PFor i)
  show ?thesis
  proof (cases "i < N")
    case True
    with assms(2,3) have "item_of pid i = pid * 100 + int i"
      by (intro item_of_exact) auto
    with assms PFor True show ?thesis by auto
  next
    case False
    with assms PFor show ?thesis by auto
  qed
qed (use assms in \<open>auto simp: printMessage_def split: if_splits\<close>)

lemma cstep_items_real:
  assumes "cstep N cid ok pc w = Next l (pc', w')"
    and "list_all (\<lambda>x. 100 \<le> x) (citems pc)" and "list_all (\<lambda>x. 100 \<le> x) (buffer w)"
  shows "list_all (\<lambda>x. 100 \<le> x) (citems pc') \<and> list_all (\<lambda>x. 100 \<le> x) (buffer w')"
  using assms by (cases pc) (auto simp: printMessage_def split: if_splits list.splits)

lemma list_all_update: "list_all P xs \<Longrightarrow> P v \<Longrightarrow> list_all P (xs[k := v])"
  using set_update_subset_insert [of xs k v] by (auto simp: list_all_iff)

lemma items_real_producer:
  "items_real s \<Longrightarrow> k < length (producers s) \<Longrightarrow>
   list_all (\<lambda>x. 100 \<le> x) (pitems (producers s ! k))"
  by (simp add: items_real_def list_all_length)

lemma items_real_consumer:
  "items_real s \<Longrightarrow> k < length (consumers s) \<Longrightarrow>
   list_all (\<lambda>x. 100 \<le> x) (citems (consumers s ! k))"
  by (simp add: items_real_def list_all_length)

lemma step_items_real:
  assumes st: "step cfg e s = Next l s'" and no: "no_overflow cfg"
    and sp: "spawned_ok cfg s" and ir: "items_real s"
  shows "spawned_ok cfg s' \<and> items_real s'"
  using st
proof (cases rule: step_cases)
  case (Prod k ok pc w)
  from Prod(2) sp no have "(int k + 1) * 100 + int (cN cfg) \<le> 2147483648"
    by (simp add: spawned_ok_def no_overflow_def)
  from pstep_items_real [OF Prod(3) _ this items_real_producer [OF ir Prod(2)]] ir
  have "list_all (\<lambda>x. 100 \<le> x) (pitems pc) \<and> list_all (\<lambda>x. 100 \<le> x) (buffer w)"
    by (simp add: items_real_def)
  with ir sp show ?thesis
    by (simp add: Prod(4) items_real_def spawned_ok_def list_all_update split: mpc.splits)
next
  case (Cons k ok pc w)
  from cstep_items_real [OF Cons(3) items_real_consumer [OF ir Cons(2)]] ir
  have "list_all (\<lambda>x. 100 \<le> x) (citems pc) \<and> list_all (\<lambda>x. 100 \<le> x) (buffer w)"
    by (simp add: items_real_def)
  with ir sp show ?thesis
    by (simp add: Cons(4) items_real_def spawned_ok_def list_all_update split: mpc.splits)
next
  case (Coord ok)
  with ir sp show ?thesis
    by (auto simp: items_real_def spawned_ok_def printMessage_def split: mpc.splits if_splits)
qed

lemma run_items_real:
  assumes "run cfg es (init capacity) = Some (tr, s)" and "no_overflow cfg"
  shows "items_real s"
proof -
  from assms(1) have "spawned_ok cfg s \<and> items_real s"
  proof (induction rule: run_induct)
    case Start
    show ?case by (simp add: init_def spawned_ok_def items_real_def)
  next
    case (Step tr s e l s')
    with step_items_real [OF Step(2) assms(2)] show ?case by simp
  qed
  then show ?thesis ..
qed

lemma cstep_returns_sentinel:
  assumes "cstep N cid ok pc w = Next l (CRet i (- 1), w')"
    and "list_all (\<lambda>x. 100 \<le> x) (citems pc)"
  shows "pc = CTimeout i \<and> channel w' = channel w"
  using assms
  by (cases pc) (auto simp: printMessage_def channel_def split: if_splits list.splits)

subsection \<open>Examples of runs\<close>

lemmas atoi_defs = atoi_def strtol_def LONG_MAX_def LONG_MIN_def wrap32_def isspace_def isdigit_def

lemmas eval_defs = init_def one_each_def printMessage_def item_of_def wrap32_def
  PRODUCER_RETRY_DELAY_MS_def MAX_WAIT_TIME_MS_def

lemma run_mid_produce:
  "run one_each [(Coord, True), (Prod 0, True), (Prod 0, True), (Prod 0, True)] (init 1) =
     Some ([(Coord, Spawn), (Prod 0, Print (ProducerCreated 1)), (Prod 0, CallProduce 1 100),
            (Prod 0, TryAcquireFor Spaces 500 True)], mid_produce)"
  by (simp add: eval_defs mid_produce_def)

lemma run_after_produce:
  "run one_each [(Coord, True), (Prod 0, True), (Prod 0, True), (Prod 0, True), (Prod 0, True),
       (Prod 0, True), (Prod 0, True), (Prod 0, True), (Prod 0, True)] (init 1) =
     Some ([(Coord, Spawn), (Prod 0, Print (ProducerCreated 1)), (Prod 0, CallProduce 1 100),
            (Prod 0, TryAcquireFor Spaces 500 True), (Prod 0, Lock), (Prod 0, Push 100),
            (Prod 0, Print (InsertOk 1 100)), (Prod 0, Unlock), (Prod 0, Release Items)],
           after_produce)"
  by (simp add: eval_defs after_produce_def)

lemma run_to_try: "run one_each to_try (init 1) = Some (trace_to_try, at_try)"
  by (simp add: eval_defs to_try_def trace_to_try_def at_try_def)

lemma run_to_timeout:
  "run one_each (to_try @ [(Cons 0, False)]) (init 1) =
     Some (trace_to_try @ [(Cons 0, TryAcquireFor Items 5000 False)], at_timeout)"
  by (simp add: eval_defs to_try_def trace_to_try_def at_timeout_def)



lemma run_to_join: "run one_each to_join (init 1) = Some (trace_to_join, at_show)"
  by (simp add: eval_defs to_join_def trace_to_join_def at_show_def)

lemma run_to_exit: "run one_each to_exit (init 1) = Some (trace_to_exit, after_show\<lparr>coord := MExit\<rparr>)"
  by (simp add: eval_defs to_exit_def to_join_def trace_to_exit_def trace_to_join_def
      after_show_def remaining_msg_def)

lemma run_after_push:
  "run one_each [(Coord, True), (Prod 0, True), (Prod 0, True), (Prod 0, True), (Prod 0, True),
       (Prod 0, True)] (init 1) =
     Some ([(Coord, Spawn), (Prod 0, Print (ProducerCreated 1)), (Prod 0, CallProduce 1 100),
            (Prod 0, TryAcquireFor Spaces 500 True), (Prod 0, Lock), (Prod 0, Push 100)],
           after_push)"
  by (simp add: eval_defs after_push_def)

lemma run_to_full: "run two_producers to_full (init 1) = Some (trace_to_full, full_buffer)"
  by (simp add: eval_defs two_producers_def to_full_def trace_to_full_def full_buffer_def)

lemma run_to_stall: "run stall_cfg to_stall (init 1) = Some (trace_to_stall, stalled_state)"
  by (simp add: eval_defs stall_cfg_def to_stall_def trace_to_stall_def stalled_state_def)

subsection \<open>A producer that can never proceed\<close>

lemma step_stalled:
  assumes "step cfg e s = Next l s'" and "stalled s"
  shows "stalled s'"
  using assms(1)
proof (cases rule: step_cases)
  case (Prod k ok pc w)
  with assms(2) show ?thesis
    by (auto simp: stalled_def printMessage_def split: if_splits)
next
  case (Cons k ok pc w)
  with assms(2) show ?thesis by (auto simp: stalled_def)
next
  case (Coord ok)
  with assms(2) show ?thesis by (auto simp: stalled_def split: if_splits)
qed

lemma run_stalled:
  assumes "run cfg es s0 = Some (tr, s)" and "stalled s0"
  shows "stalled s"
  using assms(1)
proof (induction rule: run_induct)
  case Start
  from assms(2) show ?case .
next
  case (Step tr s e l s')
  from step_stalled [OF Step(2) Step(1)] show ?case .
qed

lemma stalled_calls: "stalled s \<Longrightarrow> calls_made 3 (ppc_at s 0) = 2"
  by (auto simp: stalled_def ppc_at_def)

subsection \<open>Distinct items\<close>

lemma items_distinct:
  assumes no: "no_overflow cfg" and small: "cN cfg \<le> 100"
    and k: "k < cNP cfg" "k' < cNP cfg" and i: "i < cN cfg" "j < cN cfg"
    and ne: "k \<noteq> k' \<or> i \<noteq> j"
  shows "item_of (int k + 1) i \<noteq> item_of (int k' + 1) j"
proof -
  from no k(1) i(1) have "(int k + 1) * 100 + int i \<le> 2147483647"
    by (simp add: no_overflow_def)
  then have a: "item_of (int k + 1) i = (int k + 1) * 100 + int i"
    by (intro item_of_exact) auto
  from no k(2) i(2) have "(int k' + 1) * 100 + int j \<le> 2147483647"
    by (simp add: no_overflow_def)
  then have b: "item_of (int k' + 1) j = (int k' + 1) * 100 + int j"
    by (intro item_of_exact) auto
  show ?thesis
    unfolding a b
  proof
    assume eq: "(int k + 1) * 100 + int i = (int k' + 1) * 100 + int j"
    from small i have "i < 100" "j < 100" by simp_all
    have "\<not> k < k'"
    proof
      assume "k < k'"
      then have "int k + 1 \<le> int k'" by simp
      with eq \<open>i < 100\<close> show False by simp
    qed
    moreover have "\<not> k' < k"
    proof
      assume "k' < k"
      then have "int k' + 1 \<le> int k" by simp
      with eq \<open>j < 100\<close> show False by simp
    qed
    ultimately have "k = k'" by simp
    with eq ne show False by simp
  qed
qed

lemma items_distinct_same_producer:
  assumes no: "no_overflow cfg" and k: "k < cNP cfg" and i: "i < cN cfg" "j < cN cfg"
    and ne: "i \<noteq> j"
  shows "item_of (int k + 1) i \<noteq> item_of (int k + 1) j"
proof -
  from no k i(1) have "(int k + 1) * 100 + int i \<le> 2147483647"
    by (simp add: no_overflow_def)
  then have a: "item_of (int k + 1) i = (int k + 1) * 100 + int i"
    by (intro item_of_exact) auto
  from no k i(2) have "(int k + 1) * 100 + int j \<le> 2147483647"
    by (simp add: no_overflow_def)
  then have b: "item_of (int k + 1) j = (int k + 1) * 100 + int j"
    by (intro item_of_exact) auto
  from ne show ?thesis unfolding a b by auto
qed

subsection \<open>What the main thread has joined\<close>

lemma pstep_not_done: "pstep N pid ok pc w = Next l (pc', w') \<Longrightarrow> pc \<noteq> PDone"
  by auto

lemma cstep_not_done: "cstep N cid ok pc w = Next l (pc', w') \<Longrightarrow> pc \<noteq> CDone"
  by auto

lemma list_all_nth_False: "list_all P xs \<Longrightarrow> k < length xs \<Longrightarrow> \<not> P (xs ! k) \<Longrightarrow> False"
  by (simp add: list_all_length)

lemma list_all_take_update:
  assumes "list_all P (take i xs)" and "k < length xs" and "\<not> P (xs ! k)"
  shows "list_all P (take i (xs[k := v]))"
proof -
  have "i \<le> k"
  proof (rule ccontr)
    assume "\<not> i \<le> k"
    with assms(2) have "k < length (take i xs)" "take i xs ! k = xs ! k" by simp_all
    with assms(1,3) show False by (auto simp: list_all_length)
  qed
  with assms(1) show ?thesis by simp
qed

lemma step_joined:
  assumes st: "step cfg e s = Next l s'" and j: "joined cfg s"
  shows "joined cfg s'"
  using st
proof (cases rule: step_cases)
  case (Prod k ok pc w)
  note nd = pstep_not_done [OF Prod(3)]
  have all: False if "list_all (\<lambda>pc. pc = PDone) (producers s)"
    using list_all_nth_False [OF that Prod(2)] nd by simp
  have tk: "list_all (\<lambda>pc. pc = PDone) (take i ((producers s)[k := pc]))"
    if "list_all (\<lambda>pc. pc = PDone) (take i (producers s))" for i
    using list_all_take_update [OF that Prod(2)] nd by simp
  from j all tk show ?thesis
    by (cases "coord s") (auto simp: joined_def all_done_def Prod(4))
next
  case (Cons k ok pc w)
  note nd = cstep_not_done [OF Cons(3)]
  have all: False if "list_all (\<lambda>pc. pc = CDone) (consumers s)"
    using list_all_nth_False [OF that Cons(2)] nd by simp
  have tk: "list_all (\<lambda>pc. pc = CDone) (take i ((consumers s)[k := pc]))"
    if "list_all (\<lambda>pc. pc = CDone) (take i (consumers s))" for i
    using list_all_take_update [OF that Cons(2)] nd by simp
  from j all tk Cons(2) show ?thesis
    by (cases "coord s") (auto simp: joined_def all_done_def Cons(4))
next
  case (Coord ok)
  show ?thesis
  proof (cases "coord s")
    case (MSpawnP i)
    with Coord j show ?thesis by (auto simp: joined_def split: if_splits)
  next
    case (MSpawnC i)
    with Coord j show ?thesis by (auto simp: joined_def split: if_splits)
  next
    case (MJoinP i)
    with Coord j show ?thesis
      by (auto simp: joined_def take_Suc_conv_app_nth split: if_splits)
  next
    case (MJoinC i)
    with Coord j show ?thesis
      by (auto simp: joined_def all_done_def take_Suc_conv_app_nth split: if_splits)
  next
    case MShowLock
    with Coord j show ?thesis by (auto simp: joined_def all_done_def split: if_splits)
  next
    case MShowPrint
    with Coord j show ?thesis by (auto simp: joined_def all_done_def printMessage_def)
  next
    case MShowUnlock
    with Coord j show ?thesis by (auto simp: joined_def all_done_def split: if_splits)
  next
    case MClose
    with Coord j show ?thesis by (auto simp: joined_def all_done_def)
  next
    case MExit
    with Coord show ?thesis by simp
  qed
qed

lemma run_joined:
  assumes "run cfg es (init capacity) = Some (tr, s)"
  shows "joined cfg s"
  using assms
proof (induction rule: run_induct)
  case Start
  show ?case by (simp add: init_def joined_def)
next
  case (Step tr s e l s')
  from step_joined [OF Step(2) Step(1)] show ?case .
qed

section \<open>Properties of the channel and its users\<close>

subsection \<open>Conservation of capacity\<close>

text \<open>
  Claim C1, as it holds on the code. In every state that a run from the initial state
  reaches, mid-operation states included, the free slots plus the queued items plus the
  calls in flight (producers between their acquire of a slot and their push, consumers
  between their pop and their release of the slot) equal the capacity. Free slots plus
  queued items therefore equal the capacity in exactly the states where no call is in
  flight.
\<close>

theorem slots_plus_queued_with_in_flight:
  assumes "run cfg es (init capacity) = Some (tr, s)"
  shows "spaces (sh s) + queued_items (sh s) + slots_in_flight s = capacity \<and>
         (spaces (sh s) + queued_items (sh s) = capacity) = (slots_in_flight s = 0)"
  using run_slots [OF assms] by (auto simp: queued_items_def)

theorem slots_plus_queued_with_in_flight_witness:
  "run one_each [(Coord, True), (Prod 0, True), (Prod 0, True), (Prod 0, True), (Prod 0, True),
       (Prod 0, True), (Prod 0, True), (Prod 0, True), (Prod 0, True)] (init 1) =
     Some ([(Coord, Spawn), (Prod 0, Print (ProducerCreated 1)), (Prod 0, CallProduce 1 100),
            (Prod 0, TryAcquireFor Spaces 500 True), (Prod 0, Lock), (Prod 0, Push 100),
            (Prod 0, Print (InsertOk 1 100)), (Prod 0, Unlock), (Prod 0, Release Items)],
           after_produce) \<and>
   spaces (sh after_produce) + queued_items (sh after_produce) + slots_in_flight after_produce = 1 \<and>
   (spaces (sh after_produce) + queued_items (sh after_produce) = 1) =
     (slots_in_flight after_produce = 0)"
  using run_after_produce slots_plus_queued_with_in_flight [OF run_after_produce] by simp

text \<open>
  Claim C1 as stated, with equality in mid-operation states too, fails: with capacity 1,
  once the producer has acquired the only slot and has not pushed yet, there is no free
  slot and no queued item (and the count of available items is 0 as well), so the sum is
  0 and not 1.
\<close>

theorem slots_plus_queued_below_capacity_mid_produce:
  "run one_each [(Coord, True), (Prod 0, True), (Prod 0, True), (Prod 0, True)] (init 1) =
     Some ([(Coord, Spawn), (Prod 0, Print (ProducerCreated 1)), (Prod 0, CallProduce 1 100),
            (Prod 0, TryAcquireFor Spaces 500 True)], mid_produce) \<and>
   spaces (sh mid_produce) + queued_items (sh mid_produce) = 0 \<and>
   spaces (sh mid_produce) + items (sh mid_produce) = 0"
  using run_mid_produce by (simp add: mid_produce_def queued_items_def)

text \<open>
  Claim C2, as it holds on the code, with the number of queued items read as the count of
  available items (the semaphore \<^verbatim>\<open>items\<close>). In every state that a run from the initial
  state reaches, whatever steps of \<^verbatim>\<open>produce\<close>, \<^verbatim>\<open>consume\<close> and
  \<^verbatim>\<open>showRemainingItems\<close> led to it: free slots plus available items are at most the
  capacity; the available items plus the calls that hold or owe an item (producers between
  their push and their release of \<^verbatim>\<open>items\<close>, consumers between their acquire of
  \<^verbatim>\<open>items\<close> and their pop) equal the length of the queue, so the count of available
  items never exceeds that length and equals it in exactly the states with no such call;
  the queue is never longer than the capacity, also together with the free slots.
\<close>

theorem capacity_bounds:
  assumes "run cfg es (init capacity) = Some (tr, s)"
  shows "spaces (sh s) + items (sh s) \<le> capacity \<and>
         items (sh s) + items_in_flight s = length (buffer (sh s)) \<and>
         (items (sh s) = length (buffer (sh s))) = (items_in_flight s = 0) \<and>
         length (buffer (sh s)) \<le> capacity \<and>
         spaces (sh s) + length (buffer (sh s)) \<le> capacity"
  using run_slots [OF assms] run_items [OF assms] by auto

theorem capacity_bounds_witness:
  "run one_each [(Coord, True), (Prod 0, True), (Prod 0, True), (Prod 0, True), (Prod 0, True),
       (Prod 0, True), (Prod 0, True), (Prod 0, True), (Prod 0, True)] (init 1) =
     Some ([(Coord, Spawn), (Prod 0, Print (ProducerCreated 1)), (Prod 0, CallProduce 1 100),
            (Prod 0, TryAcquireFor Spaces 500 True), (Prod 0, Lock), (Prod 0, Push 100),
            (Prod 0, Print (InsertOk 1 100)), (Prod 0, Unlock), (Prod 0, Release Items)],
           after_produce) \<and>
   spaces (sh after_produce) + items (sh after_produce) \<le> 1 \<and>
   items (sh after_produce) + items_in_flight after_produce = length (buffer (sh after_produce)) \<and>
   (items (sh after_produce) = length (buffer (sh after_produce))) =
     (items_in_flight after_produce = 0) \<and>
   length (buffer (sh after_produce)) \<le> 1 \<and>
   spaces (sh after_produce) + length (buffer (sh after_produce)) \<le> 1"
  using run_after_produce capacity_bounds [OF run_after_produce] by simp

text \<open>
  Claim C2 as stated fails in its second part: the count of available items is not the
  length of the queue in every reachable state. After the first producer has pushed its
  item and before it has released \<^verbatim>\<open>items\<close>, the queue holds one element and the count
  is 0.
\<close>

theorem available_items_below_queue_length_after_push:
  "run one_each [(Coord, True), (Prod 0, True), (Prod 0, True), (Prod 0, True), (Prod 0, True),
       (Prod 0, True)] (init 1) =
     Some ([(Coord, Spawn), (Prod 0, Print (ProducerCreated 1)), (Prod 0, CallProduce 1 100),
            (Prod 0, TryAcquireFor Spaces 500 True), (Prod 0, Lock), (Prod 0, Push 100)],
           after_push) \<and>
   items (sh after_push) = 0 \<and> length (buffer (sh after_push)) = 1"
  using run_after_push by (simp add: after_push_def)

subsection \<open>The two operations of the channel\<close>





text \<open>
  Claim C10. In a state that a run from the initial state reaches, the two steps of a
  call of \<^verbatim>\<open>consume\<close> that times out (the failed timed wait, then the message and the
  return of -1) leave the queue, the lock and both counts as they are. Conversely, when no
  item computation overflows, a step after which \<^verbatim>\<open>consume\<close> has returned -1 is the
  second of these steps, so a call that returns -1 has not touched the channel.
\<close>

theorem timeout_leaves_channel:
  assumes "run cfg es (init capacity) = Some (tr, s)" and "k < length (consumers s)"
  shows
    "(consumers s ! k = CTry i \<longrightarrow>
        step cfg (Cons k, False) s =
          Next (TryAcquireFor Items MAX_WAIT_TIME_MS False)
            (s\<lparr>consumers := (consumers s)[k := CTimeout i]\<rparr>)) \<and>
     (consumers s ! k = CTimeout i \<longrightarrow>
        step cfg (Cons k, ok) s =
          Next (Print (ConsumerTimeout (int k + 1)))
            (s\<lparr>sh := printMessage (ConsumerTimeout (int k + 1)) (sh s),
               consumers := (consumers s)[k := CRet i (- 1)]\<rparr>) \<and>
        channel (printMessage (ConsumerTimeout (int k + 1)) (sh s)) = channel (sh s)) \<and>
     (no_overflow cfg \<and> step cfg (Cons k, ok) s = Next l s' \<and> consumers s' ! k = CRet i (- 1) \<longrightarrow>
        consumers s ! k = CTimeout i \<and> channel (sh s') = channel (sh s))"
proof -
  have a: "step cfg (Cons k, False) s =
          Next (TryAcquireFor Items MAX_WAIT_TIME_MS False)
            (s\<lparr>consumers := (consumers s)[k := CTimeout i]\<rparr>)" if "consumers s ! k = CTry i"
    using that assms(2) by simp
  have b: "step cfg (Cons k, ok) s =
          Next (Print (ConsumerTimeout (int k + 1)))
            (s\<lparr>sh := printMessage (ConsumerTimeout (int k + 1)) (sh s),
               consumers := (consumers s)[k := CRet i (- 1)]\<rparr>) \<and>
        channel (printMessage (ConsumerTimeout (int k + 1)) (sh s)) = channel (sh s)"
    if "consumers s ! k = CTimeout i"
    using that assms(2) by (simp add: channel_def printMessage_def)
  have c: "consumers s ! k = CTimeout i \<and> channel (sh s') = channel (sh s)"
    if no: "no_overflow cfg" and st: "step cfg (Cons k, ok) s = Next l s'"
      and ret: "consumers s' ! k = CRet i (- 1)"
  proof -
    note real = items_real_consumer [OF run_items_real [OF assms(1) no] assms(2)]
    from st assms(2) obtain pc w where
      c: "cstep (cN cfg) (int k + 1) ok (consumers s ! k) (sh s) = Next l (pc, w)" and
      s': "s' = s\<lparr>sh := w, consumers := (consumers s)[k := pc]\<rparr>"
      by (auto split: result.splits)
    from ret s' assms(2) have "pc = CRet i (- 1)" by simp
    with cstep_returns_sentinel [OF c [unfolded this] real] s' show ?thesis by simp
  qed
  from a b c show ?thesis by blast
qed

theorem timeout_leaves_channel_witness:
  "run one_each to_try (init 1) = Some (trace_to_try, at_try) \<and>
   0 < length (consumers at_try) \<and> consumers at_try ! 0 = CTry 0 \<and>
   step one_each (Cons 0, False) at_try = Next (TryAcquireFor Items 5000 False) at_timeout \<and>
   consumers at_timeout ! 0 = CTimeout 0 \<and>
   step one_each (Cons 0, True) at_timeout = Next (Print (ConsumerTimeout 1)) after_timeout \<and>
   no_overflow one_each \<and>
   consumers after_timeout ! 0 = CRet 0 (- 1) \<and>
   channel (sh at_timeout) = channel (sh at_try) \<and>
   channel (sh after_timeout) = channel (sh at_timeout)"
proof -
  have k1: "0 < length (consumers at_try)" and p1: "consumers at_try ! 0 = CTry 0"
    by (simp_all add: at_try_def)
  have k2: "0 < length (consumers at_timeout)" and p2: "consumers at_timeout ! 0 = CTimeout 0"
    by (simp_all add: at_timeout_def)
  have no: "no_overflow one_each" by (simp add: no_overflow_def one_each_def)
  have ret: "consumers after_timeout ! 0 = CRet 0 (- 1)" by (simp add: after_timeout_def)
  have a: "step one_each (Cons 0, False) at_try =
      Next (TryAcquireFor Items 5000 False) at_timeout"
    using timeout_leaves_channel [OF run_to_try k1, of 0, THEN conjunct1, THEN mp, OF p1]
    by (simp add: at_try_def at_timeout_def eval_defs)
  have b: "step one_each (Cons 0, True) at_timeout = Next (Print (ConsumerTimeout 1)) after_timeout"
    using timeout_leaves_channel [OF run_to_timeout k2, of 0 True, THEN conjunct2,
        THEN conjunct1, THEN mp, OF p2, THEN conjunct1]
    by (simp add: at_timeout_def after_timeout_def eval_defs)
  have c: "channel (sh after_timeout) = channel (sh at_timeout)"
    using timeout_leaves_channel [OF run_to_timeout k2, of 0 True
        "Print (ConsumerTimeout 1)" after_timeout, THEN conjunct2, THEN conjunct2, THEN mp,
        OF conjI [OF no conjI [OF b ret]], THEN conjunct2] .
  have d: "channel (sh at_timeout) = channel (sh at_try)"
    by (simp add: at_timeout_def at_try_def channel_def)
  show ?thesis
    by (intro conjI) (rule run_to_try k1 p1 a p2 b no ret d c)+
qed

text \<open>
  Claim C7. \<^verbatim>\<open>showRemainingItems\<close>, called in any state in which the lock is free: it
  takes the lock, writes one message and releases the lock; the message lists all queued
  items in queue order (or says that the queue is empty); afterwards the queue, the count
  of free slots, the count of available items and the lock are as before, and the message
  is the only addition to the output.
\<close>

theorem showRemainingItems_keeps_channel:
  assumes "coord s = MShowLock" and "buffer_mutex (sh s) = 1"
  shows "run cfg [(Coord, b1), (Coord, b2), (Coord, b3)] s =
     Some ([(Coord, Lock), (Coord, Print (remaining_msg (buffer (sh s)))), (Coord, Unlock)],
           s\<lparr>sh := printMessage (remaining_msg (buffer (sh s))) (sh s), coord := MClose\<rparr>) \<and>
     remaining_msg (buffer (sh s)) =
       (if buffer (sh s) = [] then RemainingEmpty else Remaining (buffer (sh s))) \<and>
     buffer (printMessage (remaining_msg (buffer (sh s))) (sh s)) = buffer (sh s) \<and>
     spaces (printMessage (remaining_msg (buffer (sh s))) (sh s)) = spaces (sh s) \<and>
     items (printMessage (remaining_msg (buffer (sh s))) (sh s)) = items (sh s) \<and>
     buffer_mutex (printMessage (remaining_msg (buffer (sh s))) (sh s)) = buffer_mutex (sh s) \<and>
     out (printMessage (remaining_msg (buffer (sh s))) (sh s)) =
       out (sh s) @ [remaining_msg (buffer (sh s))]"
  using assms by (simp add: printMessage_def remaining_msg_def drain_id)

theorem showRemainingItems_keeps_channel_witness:
  "coord at_show = MShowLock \<and> buffer_mutex (sh at_show) = 1 \<and>
   run one_each [(Coord, True), (Coord, True), (Coord, True)] at_show =
     Some ([(Coord, Lock), (Coord, Print RemainingEmpty), (Coord, Unlock)], after_show) \<and>
   buffer (sh after_show) = buffer (sh at_show) \<and>
   spaces (sh after_show) = spaces (sh at_show) \<and>
   items (sh after_show) = items (sh at_show) \<and>
   buffer_mutex (sh after_show) = buffer_mutex (sh at_show) \<and>
   out (sh after_show) = out (sh at_show) @ [RemainingEmpty] \<and>
   coord at_show_two = MShowLock \<and> buffer_mutex (sh at_show_two) = 1 \<and>
   run one_each [(Coord, True), (Coord, True), (Coord, True)] at_show_two =
     Some ([(Coord, Lock), (Coord, Print (Remaining [100, 200])), (Coord, Unlock)],
           at_show_two\<lparr>sh := (sh at_show_two)\<lparr>out :=
               [ConsumerTimeout 1, InsertOk 1 100, InsertOk 2 200, Remaining [100, 200]]\<rparr>,
             coord := MClose\<rparr>)"
proof -
  have h: "coord at_show = MShowLock" "buffer_mutex (sh at_show) = 1"
    by (simp_all add: at_show_def)
  note T = showRemainingItems_keeps_channel [OF h, of one_each True True True]
  have a: "run one_each [(Coord, True), (Coord, True), (Coord, True)] at_show =
     Some ([(Coord, Lock), (Coord, Print RemainingEmpty), (Coord, Unlock)], after_show)"
    using T [THEN conjunct1]
    by (simp add: at_show_def after_show_def printMessage_def remaining_msg_def)
  have b: "buffer (sh after_show) = buffer (sh at_show) \<and>
   spaces (sh after_show) = spaces (sh at_show) \<and>
   items (sh after_show) = items (sh at_show) \<and>
   buffer_mutex (sh after_show) = buffer_mutex (sh at_show) \<and>
   out (sh after_show) = out (sh at_show) @ [RemainingEmpty]"
    using T [THEN conjunct2, THEN conjunct2]
    by (simp add: at_show_def after_show_def printMessage_def remaining_msg_def)
  have h2: "coord at_show_two = MShowLock" "buffer_mutex (sh at_show_two) = 1"
    by (simp_all add: at_show_two_def)
  have c: "run one_each [(Coord, True), (Coord, True), (Coord, True)] at_show_two =
     Some ([(Coord, Lock), (Coord, Print (Remaining [100, 200])), (Coord, Unlock)],
           at_show_two\<lparr>sh := (sh at_show_two)\<lparr>out :=
               [ConsumerTimeout 1, InsertOk 1 100, InsertOk 2 200, Remaining [100, 200]]\<rparr>,
             coord := MClose\<rparr>)"
    using showRemainingItems_keeps_channel [OF h2, of one_each True True True, THEN conjunct1]
    by (simp add: at_show_two_def printMessage_def remaining_msg_def)
  from h a b h2 c show ?thesis by (intro conjI) simp_all
qed

subsection \<open>The producer loop\<close>

text \<open>
  Claim C5, as it holds on the code. In every run from the initial state, the calls of
  \<^verbatim>\<open>produce\<close> that the producer with index \<open>k\<close> (identifier \<open>k + 1\<close>, at least 1)
  has made so far are, in this order, the calls with its identifier and the items
  \<^verbatim>\<open>id * 100 + i\<close> for \<open>i = 0, 1, ...\<close> up to the number of calls made; that number
  never exceeds \<^verbatim>\<open>N\<close>, and a producer that has finished has made exactly the
  \<^verbatim>\<open>N\<close> calls for \<open>i = 0, ..., N - 1\<close>. When no item computation overflows, the items
  of one producer are pairwise distinct, and for \<^verbatim>\<open>N\<close> up to 100 so are the items of
  different producers.
\<close>

theorem producer_calls_in_order:
  assumes "run cfg es (init capacity) = Some (tr, s)"
  shows "produce_calls (ops_of (Prod k) tr) =
           map (\<lambda>i. (int k + 1, item_of (int k + 1) i)) [0 ..< calls_made (cN cfg) (ppc_at s k)] \<and>
         calls_made (cN cfg) (ppc_at s k) \<le> cN cfg \<and>
         (ppc_at s k = PDone \<longrightarrow>
            produce_calls (ops_of (Prod k) tr) =
              map (\<lambda>i. (int k + 1, item_of (int k + 1) i)) [0 ..< cN cfg]) \<and>
         (no_overflow cfg \<and> k < cNP cfg \<and> i < cN cfg \<and> j < cN cfg \<and> i \<noteq> j \<longrightarrow>
            item_of (int k + 1) i \<noteq> item_of (int k + 1) j) \<and>
         (no_overflow cfg \<and> cN cfg \<le> 100 \<and> k < cNP cfg \<and> k' < cNP cfg \<and>
          i < cN cfg \<and> j < cN cfg \<and> k \<noteq> k' \<longrightarrow>
            item_of (int k + 1) i \<noteq> item_of (int k' + 1) j)"
  using run_calls [OF assms, of k] calls_made_le [of "cN cfg" "ppc_at s k"]
    items_distinct [of cfg k k' i j] items_distinct_same_producer [of cfg k i j]
  by auto

theorem producer_calls_in_order_witness:
  "run one_each to_join (init 1) = Some (trace_to_join, at_show) \<and>
   ppc_at at_show 0 = PDone \<and>
   produce_calls (ops_of (Prod 0) trace_to_join) = [(1, 100)] \<and>
   calls_made (cN one_each) (ppc_at at_show 0) \<le> cN one_each \<and>
   map (\<lambda>i. (int 0 + 1, item_of (int 0 + 1) i)) [0 ..< cN one_each] = [(1, 100)] \<and>
   no_overflow stall_cfg \<and> 0 < cNP stall_cfg \<and> 1 < cN stall_cfg \<and> 2 < cN stall_cfg \<and>
   (1 :: nat) \<noteq> 2 \<and> item_of (int 0 + 1) 1 \<noteq> item_of (int 0 + 1) 2 \<and>
   no_overflow two_producers \<and> cN two_producers \<le> 100 \<and> 0 < cNP two_producers \<and>
   1 < cNP two_producers \<and> 0 < cN two_producers \<and> (0 :: nat) \<noteq> 1 \<and>
   item_of (int 0 + 1) 0 \<noteq> item_of (int 1 + 1) 0"
proof -
  have p: "ppc_at at_show 0 = PDone" by (simp add: ppc_at_def at_show_def)
  note T = producer_calls_in_order [OF run_to_join, of 0]
  have e: "map (\<lambda>i. (int 0 + 1, item_of (int 0 + 1) i)) [0 ..< cN one_each] = [(1, 100)]"
    by (simp add: eval_defs)
  from T [THEN conjunct2, THEN conjunct2, THEN conjunct1, THEN mp, OF p] e
  have a: "produce_calls (ops_of (Prod 0) trace_to_join) = [(1, 100)]" by (rule trans)
  have s: "no_overflow stall_cfg" "0 < cNP stall_cfg" "1 < cN stall_cfg" "2 < cN stall_cfg"
    "(1 :: nat) \<noteq> 2"
    by (simp_all add: no_overflow_def stall_cfg_def)
  have s': "no_overflow stall_cfg \<and> 0 < cNP stall_cfg \<and> 1 < cN stall_cfg \<and>
      2 < cN stall_cfg \<and> (1 :: nat) \<noteq> 2"
    using s by blast
  note U = producer_calls_in_order [OF run_to_stall, of 0 1 2, THEN conjunct2, THEN conjunct2,
      THEN conjunct2, THEN conjunct1, THEN mp, OF s']
  have t: "no_overflow two_producers" "cN two_producers \<le> 100" "0 < cNP two_producers"
    "1 < cNP two_producers" "0 < cN two_producers" "(0 :: nat) \<noteq> 1"
    by (simp_all add: no_overflow_def two_producers_def)
  have t': "no_overflow two_producers \<and> cN two_producers \<le> 100 \<and> 0 < cNP two_producers \<and>
      1 < cNP two_producers \<and> 0 < cN two_producers \<and> 0 < cN two_producers \<and> (0 :: nat) \<noteq> 1"
    using t by blast
  note V = producer_calls_in_order [OF run_to_full, of 0 0 0 1, THEN conjunct2, THEN conjunct2,
      THEN conjunct2, THEN conjunct2, THEN mp, OF t']
  show ?thesis
    by (intro conjI) (rule run_to_join p a e T [THEN conjunct2, THEN conjunct1] s U t V)+
qed

text \<open>
  Claim C5 as stated fails twice. A producer need not make \<^verbatim>\<open>N\<close> calls: with
  capacity 1 and \<^verbatim>\<open>N = 3\<close>, once the consumer has timed out three times and finished,
  the producer inserts its first item and waits in its second call for ever; in every
  continuation it has made two calls. And the item does not determine the producer and the
  index: for \<^verbatim>\<open>N\<close> above 100, producer 1 at index 100 and producer 2 at index 0 both
  produce 200.
\<close>

theorem producer_stalls_and_items_collide:
  "run stall_cfg to_stall (init 1) = Some (trace_to_stall, stalled_state) \<and>
   cN stall_cfg = 3 \<and>
   produce_calls (ops_of (Prod 0) trace_to_stall) = [(1, 100), (1, 101)] \<and>
   \<not> (\<exists>es tr s. run stall_cfg es stalled_state = Some (tr, s) \<and>
          calls_made (cN stall_cfg) (ppc_at s 0) \<noteq> 2) \<and>
   item_of 1 100 = 200 \<and> item_of 2 0 = 200"
proof -
  have st: "stalled stalled_state" by (simp add: stalled_def stalled_state_def)
  have a: "\<not> (\<exists>es tr s. run stall_cfg es stalled_state = Some (tr, s) \<and>
          calls_made (cN stall_cfg) (ppc_at s 0) \<noteq> 2)"
  proof
    assume "\<exists>es tr s. run stall_cfg es stalled_state = Some (tr, s) \<and>
          calls_made (cN stall_cfg) (ppc_at s 0) \<noteq> 2"
    then obtain es tr s where r: "run stall_cfg es stalled_state = Some (tr, s)"
      and c: "calls_made (cN stall_cfg) (ppc_at s 0) \<noteq> 2" by blast
    from stalled_calls [OF run_stalled [OF r st]] c show False
      by (simp add: stall_cfg_def)
  qed
  have b: "cN stall_cfg = 3" by (simp add: stall_cfg_def)
  have c: "produce_calls (ops_of (Prod 0) trace_to_stall) = [(1, 100), (1, 101)]"
    by (simp add: trace_to_stall_def)
  have d: "item_of 1 100 = 200" "item_of 2 0 = 200" by (simp_all add: item_of_def wrap32_def)
  show ?thesis by (intro conjI) (rule run_to_stall a b c d)+
qed

subsection \<open>Order of the synchronisation operations\<close>

text \<open>
  Claim C6. In every run from the initial state, the operations of every producer follow
  the protocol with \<^verbatim>\<open>spaces\<close> acquired and \<^verbatim>\<open>items\<close> released, and those of every
  consumer follow it with \<^verbatim>\<open>items\<close> acquired and \<^verbatim>\<open>spaces\<close> released: the counting
  semaphore is acquired before the lock is taken, the complementary one is released after
  the lock has been released, and between taking and releasing the lock the thread
  performs no operation on a counting semaphore.
\<close>

theorem calls_follow_protocol:
  assumes "run cfg es (init capacity) = Some (tr, s)"
  shows "follows Spaces Items Outside (ops_of (Prod k) tr) = Some (phaseP (ppc_at s k)) \<and>
         follows Items Spaces Outside (ops_of (Cons k) tr) = Some (phaseC (cpc_at s k))"
  using assms
proof (induction arbitrary: k rule: run_induct)
  case Start
  show ?case by (simp add: init_def ppc_at_def cpc_at_def)
next
  case (Step tr s e l s')
  note IH = Step(1) [of k]
  from Step(2) show ?case
  proof (cases rule: step_cases)
    case (Prod j ok pc w)
    show ?thesis
    proof (cases "j = k")
      case True
      from Prod(2) True have at: "producers s ! k = ppc_at s k" by (simp add: ppc_at_def)
      from pstep_protocol [OF Prod(3) [unfolded True at]] IH Prod(2) True show ?thesis
        by (simp add: Prod(1,4) ops_of_snoc follows_snoc ppc_at_update)
    next
      case False
      with IH Prod(2) show ?thesis
        by (simp add: Prod(1,4) ops_of_snoc ppc_at_update)
    qed
  next
    case (Cons j ok pc w)
    show ?thesis
    proof (cases "j = k")
      case True
      from Cons(2) True have at: "consumers s ! k = cpc_at s k" by (simp add: cpc_at_def)
      from cstep_protocol [OF Cons(3) [unfolded True at]] IH Cons(2) True show ?thesis
        by (simp add: Cons(1,4) ops_of_snoc follows_snoc cpc_at_update)
    next
      case False
      with IH Cons(2) show ?thesis
        by (simp add: Cons(1,4) ops_of_snoc cpc_at_update)
    qed
  next
    case (Coord ok)
    with IH mstep_ppc_at [OF Coord(2), of k] mstep_cpc_at [OF Coord(2), of k] show ?thesis
      by (simp add: ops_of_snoc)
  qed
qed

theorem calls_follow_protocol_witness:
  "run one_each to_join (init 1) = Some (trace_to_join, at_show) \<and>
   ops_of (Prod 0) trace_to_join =
     [Print (ProducerCreated 1), CallProduce 1 100, TryAcquireFor Spaces 500 True, Lock,
      Push 100, Print (InsertOk 1 100), Unlock, Release Items, Sleep 2000, Skip,
      Print (ProducerDone 1)] \<and>
   ops_of (Cons 0) trace_to_join =
     [Print (ConsumerCreated 1), CallConsume 1, TryAcquireFor Items 5000 True, Lock,
      Front 100, Pop, Print (Consumed 1 100), Unlock, Release Spaces, Sleep 1500, Skip,
      Print (ConsumerDone 1)] \<and>
   follows Spaces Items Outside (ops_of (Prod 0) trace_to_join) = Some Outside \<and>
   follows Items Spaces Outside (ops_of (Cons 0) trace_to_join) = Some Outside"
proof -
  note T = calls_follow_protocol [OF run_to_join, of 0]
  have p: "phaseP (ppc_at at_show 0) = Outside" "phaseC (cpc_at at_show 0) = Outside"
    by (simp_all add: ppc_at_def cpc_at_def at_show_def)
  have o: "ops_of (Prod 0) trace_to_join =
     [Print (ProducerCreated 1), CallProduce 1 100, TryAcquireFor Spaces 500 True, Lock,
      Push 100, Print (InsertOk 1 100), Unlock, Release Items, Sleep 2000, Skip,
      Print (ProducerDone 1)]"
    "ops_of (Cons 0) trace_to_join =
     [Print (ConsumerCreated 1), CallConsume 1, TryAcquireFor Items 5000 True, Lock,
      Front 100, Pop, Print (Consumed 1 100), Unlock, Release Spaces, Sleep 1500, Skip,
      Print (ConsumerDone 1)]"
    by (simp_all add: trace_to_join_def)
  show ?thesis
    by (intro conjI)
      (rule run_to_join o T [THEN conjunct1, unfolded p] T [THEN conjunct2, unfolded p])+
qed

subsection \<open>Exit codes\<close>

text \<open>
  Claim C8. \<^verbatim>\<open>main\<close> with an argument vector whose length is not 5 writes the usage
  message and exits with code 1; with five arguments of which one converts to a value
  that is not positive it writes the error message and exits with code 1; in both cases no
  operation of the program proper is performed, whatever the schedule. With four positive
  values, whenever \<^verbatim>\<open>main\<close> returns, the exit code is 0 and the program has completed
  normally: the run has reached the end of \<^verbatim>\<open>main\<close>, all \<^verbatim>\<open>NP\<close> producers and all
  \<^verbatim>\<open>NC\<close> consumers were spawned and have finished, and the last message written is
  the one of \<^verbatim>\<open>showRemainingItems\<close>.
\<close>

theorem main_exit_codes:
  "(length argv \<noteq> 5 \<longrightarrow> main argv es = Some (1, [Usage], [])) \<and>
   (length argv = 5 \<and>
      (atoi (argv ! 1) \<le> 0 \<or> atoi (argv ! 2) \<le> 0 \<or> atoi (argv ! 3) \<le> 0 \<or> atoi (argv ! 4) \<le> 0) \<longrightarrow>
      main argv es = Some (1, [ParamError], [])) \<and>
   (length argv = 5 \<and> 0 < atoi (argv ! 1) \<and> 0 < atoi (argv ! 2) \<and> 0 < atoi (argv ! 3) \<and>
      0 < atoi (argv ! 4) \<and> main argv es = Some (code, msgs, tr) \<longrightarrow>
      code = 0 \<and>
      (\<exists>s. run \<lparr>cN = nat (atoi (argv ! 2)), cNP = nat (atoi (argv ! 3)),
               cNC = nat (atoi (argv ! 4))\<rparr> es (init (nat (atoi (argv ! 1)))) = Some (tr, s) \<and>
           coord s = MExit \<and> msgs = out (sh s) \<and>
           length (producers s) = nat (atoi (argv ! 3)) \<and>
           list_all (\<lambda>pc. pc = PDone) (producers s) \<and>
           length (consumers s) = nat (atoi (argv ! 4)) \<and>
           list_all (\<lambda>pc. pc = CDone) (consumers s) \<and>
           msgs \<noteq> [] \<and> last msgs = remaining_msg (buffer (sh s))))"
proof -
  have a: "main argv es = Some (1, [Usage], [])" if "length argv \<noteq> 5"
    using that by (simp add: main_def)
  have b: "main argv es = Some (1, [ParamError], [])"
    if "length argv = 5 \<and>
      (atoi (argv ! 1) \<le> 0 \<or> atoi (argv ! 2) \<le> 0 \<or> atoi (argv ! 3) \<le> 0 \<or> atoi (argv ! 4) \<le> 0)"
    using that by (auto simp: main_def Let_def)
  let ?cfg = "\<lparr>cN = nat (atoi (argv ! 2)), cNP = nat (atoi (argv ! 3)),
               cNC = nat (atoi (argv ! 4))\<rparr>"
  have c: "code = 0 \<and>
      (\<exists>s. run ?cfg es (init (nat (atoi (argv ! 1)))) = Some (tr, s) \<and>
           coord s = MExit \<and> msgs = out (sh s) \<and>
           length (producers s) = nat (atoi (argv ! 3)) \<and>
           list_all (\<lambda>pc. pc = PDone) (producers s) \<and>
           length (consumers s) = nat (atoi (argv ! 4)) \<and>
           list_all (\<lambda>pc. pc = CDone) (consumers s) \<and>
           msgs \<noteq> [] \<and> last msgs = remaining_msg (buffer (sh s)))"
    if v: "length argv = 5 \<and> 0 < atoi (argv ! 1) \<and> 0 < atoi (argv ! 2) \<and> 0 < atoi (argv ! 3) \<and>
      0 < atoi (argv ! 4) \<and> main argv es = Some (code, msgs, tr)"
  proof -
    from v obtain s where r: "run ?cfg es (init (nat (atoi (argv ! 1)))) = Some (tr, s)"
      and x: "coord s = MExit" and c0: "code = 0" and m: "msgs = out (sh s)"
      by (auto simp: main_def Let_def split: option.splits if_splits)
    from run_joined [OF r] x have "all_done ?cfg s \<and> out (sh s) \<noteq> [] \<and>
          last (out (sh s)) = remaining_msg (buffer (sh s))"
      by (simp add: joined_def)
    with r x c0 m show ?thesis by (auto simp: all_done_def)
  qed
  from a b c show ?thesis by blast
qed

theorem main_exit_codes_witness:
  "length [''Proyecto1''] \<noteq> 5 \<and>
   main [''Proyecto1''] [] = Some (1, [Usage], []) \<and>
   length [''Proyecto1'', ''2'', ''3'', ''0'', ''1''] = 5 \<and>
   atoi ([''Proyecto1'', ''2'', ''3'', ''0'', ''1''] ! 3) \<le> 0 \<and>
   main [''Proyecto1'', ''2'', ''3'', ''0'', ''1''] to_exit = Some (1, [ParamError], []) \<and>
   length [''Proyecto1'', ''2147483648'', ''1'', ''1'', ''1''] = 5 \<and>
   atoi ''2147483648'' = - 2147483648 \<and>
   atoi ([''Proyecto1'', ''2147483648'', ''1'', ''1'', ''1''] ! 1) \<le> 0 \<and>
   main [''Proyecto1'', ''2147483648'', ''1'', ''1'', ''1''] to_exit = Some (1, [ParamError], []) \<and>
   length [''Proyecto1'', ''1'', ''1'', ''1'', ''1''] = 5 \<and>
   0 < atoi ([''Proyecto1'', ''1'', ''1'', ''1'', ''1''] ! 1) \<and>
   0 < atoi ([''Proyecto1'', ''1'', ''1'', ''1'', ''1''] ! 2) \<and>
   0 < atoi ([''Proyecto1'', ''1'', ''1'', ''1'', ''1''] ! 3) \<and>
   0 < atoi ([''Proyecto1'', ''1'', ''1'', ''1'', ''1''] ! 4) \<and>
   main [''Proyecto1'', ''1'', ''1'', ''1'', ''1''] to_exit =
     Some (0, [ProducerCreated 1, InsertOk 1 100, ProducerDone 1, ConsumerCreated 1,
               Consumed 1 100, ConsumerDone 1, RemainingEmpty], trace_to_exit) \<and>
   (0 :: int) = 0 \<and>
   (\<exists>s. run one_each to_exit (init 1) = Some (trace_to_exit, s) \<and> coord s = MExit \<and>
        [ProducerCreated 1, InsertOk 1 100, ProducerDone 1, ConsumerCreated 1,
         Consumed 1 100, ConsumerDone 1, RemainingEmpty] = out (sh s) \<and>
        length (producers s) = 1 \<and> list_all (\<lambda>pc. pc = PDone) (producers s) \<and>
        length (consumers s) = 1 \<and> list_all (\<lambda>pc. pc = CDone) (consumers s) \<and>
        last [ProducerCreated 1, InsertOk 1 100, ProducerDone 1, ConsumerCreated 1,
              Consumed 1 100, ConsumerDone 1, RemainingEmpty] = remaining_msg (buffer (sh s))) \<and>
   atoi ''-2147483649'' = 2147483647 \<and>
   main [''Proyecto1'', ''-2147483649'', ''1'', ''1'', ''1''] to_exit =
     Some (0, [ProducerCreated 1, InsertOk 1 100, ProducerDone 1, ConsumerCreated 1,
               Consumed 1 100, ConsumerDone 1, RemainingEmpty], trace_to_exit)"
proof -
  let ?bad = "[''Proyecto1'', ''2'', ''3'', ''0'', ''1'']"
  let ?over = "[''Proyecto1'', ''2147483648'', ''1'', ''1'', ''1'']"
  let ?under = "[''Proyecto1'', ''-2147483649'', ''1'', ''1'', ''1'']"
  let ?good = "[''Proyecto1'', ''1'', ''1'', ''1'', ''1'']"
  let ?msgs = "[ProducerCreated 1, InsertOk 1 100, ProducerDone 1, ConsumerCreated 1,
               Consumed 1 100, ConsumerDone 1, RemainingEmpty]"
  have l1: "length [''Proyecto1''] \<noteq> 5" by simp
  have l2: "length ?bad = 5" and l3: "length ?good = 5" and l4: "length ?over = 5"
    by simp_all
  have z: "atoi (?bad ! 3) \<le> 0" by (simp add: atoi_defs)
  have o: "atoi ''2147483648'' = - 2147483648" by (simp add: atoi_defs)
  have o': "atoi (?over ! 1) \<le> 0" by (simp add: o)
  have u: "atoi ''-2147483649'' = 2147483647" by (simp add: atoi_defs)
  have one: "atoi ''1'' = 1" by (simp add: atoi_defs)
  have g: "0 < atoi (?good ! 1)" "0 < atoi (?good ! 2)" "0 < atoi (?good ! 3)"
    "0 < atoi (?good ! 4)"
    by (simp_all add: one)
  have m: "main ?good to_exit =
      (case run one_each to_exit (init 1) of
         Some (tr, s) \<Rightarrow> if coord s = MExit then Some (0, out (sh s), tr) else None
       | None \<Rightarrow> None)"
    by (simp add: main_def Let_def one one_each_def)
  have full: "main ?good to_exit = Some (0, ?msgs, trace_to_exit)"
    unfolding m run_to_exit by (simp add: after_show_def)
  have ru: "run one_each to_exit (init 2147483647) =
      Some (trace_to_exit,
        \<lparr>sh = \<lparr>buffer = [], buffer_mutex = 1, spaces = 2147483647, items = 0, out = ?msgs\<rparr>,
         producers = [PDone], consumers = [CDone], coord = MExit\<rparr>)"
    by (simp add: eval_defs to_exit_def to_join_def trace_to_exit_def trace_to_join_def
        remaining_msg_def)
  have mu: "main ?under to_exit =
      (case run one_each to_exit (init 2147483647) of
         Some (tr, s) \<Rightarrow> if coord s = MExit then Some (0, out (sh s), tr) else None
       | None \<Rightarrow> None)"
    by (simp add: main_def Let_def one u one_each_def)
  have under: "main ?under to_exit = Some (0, ?msgs, trace_to_exit)"
    unfolding mu ru by simp
  note U = main_exit_codes [of "[''Proyecto1'']" "[]", THEN conjunct1, THEN mp, OF l1]
  have bad: "length ?bad = 5 \<and>
      (atoi (?bad ! 1) \<le> 0 \<or> atoi (?bad ! 2) \<le> 0 \<or> atoi (?bad ! 3) \<le> 0 \<or> atoi (?bad ! 4) \<le> 0)"
    using l2 z by blast
  note E = main_exit_codes [of ?bad to_exit, THEN conjunct2, THEN conjunct1, THEN mp, OF bad]
  have over: "length ?over = 5 \<and>
      (atoi (?over ! 1) \<le> 0 \<or> atoi (?over ! 2) \<le> 0 \<or> atoi (?over ! 3) \<le> 0 \<or> atoi (?over ! 4) \<le> 0)"
    using l4 o' by blast
  note O = main_exit_codes [of ?over to_exit, THEN conjunct2, THEN conjunct1, THEN mp, OF over]
  have ok: "length ?good = 5 \<and> 0 < atoi (?good ! 1) \<and> 0 < atoi (?good ! 2) \<and>
      0 < atoi (?good ! 3) \<and> 0 < atoi (?good ! 4) \<and> main ?good to_exit = Some (0, ?msgs, trace_to_exit)"
    using l3 g full by blast
  note Z = main_exit_codes [of ?good to_exit 0 ?msgs trace_to_exit, THEN conjunct2,
      THEN conjunct2, THEN mp, OF ok]
  have ex: "\<exists>s. run one_each to_exit (init 1) = Some (trace_to_exit, s) \<and> coord s = MExit \<and>
        ?msgs = out (sh s) \<and>
        length (producers s) = 1 \<and> list_all (\<lambda>pc. pc = PDone) (producers s) \<and>
        length (consumers s) = 1 \<and> list_all (\<lambda>pc. pc = CDone) (consumers s) \<and>
        last ?msgs = remaining_msg (buffer (sh s))"
    using Z [THEN conjunct2] by (simp add: one one_each_def)
  show ?thesis
    by (intro conjI) (rule l1 l2 l3 l4 z o o' g U E O full Z [THEN conjunct1] ex u under)+
qed

subsection \<open>Items and the sentinel\<close>

text \<open>
  Claim C9, as it holds on the code. For a producer identifier of at least 1 and an index
  for which \<^verbatim>\<open>id * 100 + i\<close> does not exceed the largest \<^verbatim>\<open>int\<close>, the item is that
  number, it is at least 100, and so it is not the sentinel -1.
\<close>

theorem item_not_sentinel_in_range:
  assumes "1 \<le> pid" and "pid * 100 + int i \<le> 2147483647"
  shows "item_of pid i = pid * 100 + int i \<and> 100 \<le> item_of pid i \<and> item_of pid i \<noteq> - 1"
  using item_of_exact [OF assms] assms by auto

theorem item_not_sentinel_in_range_witness:
  "(1 :: int) \<le> 3 \<and> (3 :: int) * 100 + int 7 \<le> 2147483647 \<and>
   item_of 3 7 = 3 * 100 + int 7 \<and> 100 \<le> item_of 3 7 \<and> item_of 3 7 \<noteq> - 1"
  using item_not_sentinel_in_range [of 3 7] by simp

text \<open>
  Claim C9 as stated, for every identifier with wrap-around arithmetic, fails: for the
  identifier 42949672 and the index 95 the wrapped value of \<^verbatim>\<open>id * 100 + i\<close> is -1.
\<close>

theorem item_wraps_to_sentinel:
  "(1 :: int) \<le> 42949672 \<and> item_of 42949672 95 = - 1"
  by (simp add: item_of_def wrap32_def)

end
